theory Spec2Isabelle
  imports Main "HOL-Library.AList"
begin

section \<open>Data model of craft_planner.py\<close>

text \<open>
  A \<open>State\<close> is an \<open>OrderedDict\<close> from item name to quantity. Its items, in insertion
  order, are an association list; equality of two states is equality of these lists
  (the comparison of \<open>OrderedDict\<close>s is sensitive to order, and so is the hash, taken
  from \<open>tuple(self.items())\<close>). Quantities are Python integers.
\<close>

type_synonym item = string
type_synonym state = "(item \<times> int) list"

datatype error = KeyError | IndexError | OverflowError

text \<open>\<open>state[k]\<close>: the quantity stored under \<open>k\<close>, \<open>KeyError\<close> when the key is absent.\<close>

definition getitem :: "state \<Rightarrow> item \<Rightarrow> error + int" where
  "getitem st k = (case map_of st k of None \<Rightarrow> Inl KeyError | Some v \<Rightarrow> Inr v)"

text \<open>
  \<open>state[k] = v\<close> is \<open>AList.update k v\<close>: an existing key keeps its position, a new
  key is appended. \<open>state.copy()\<close> builds a new dictionary with the same items.
\<close>

text \<open>
  A rule is one entry of \<open>Crafting['Recipes']\<close>: the clauses \<open>Requires\<close>, \<open>Consumes\<close>
  and \<open>Produces\<close> are optional dictionaries (their items in order), \<open>Time\<close> is the cost.
\<close>

record rule =
  Requires :: "(item \<times> bool) list option"
  Consumes :: "(item \<times> int) list option"
  Produces :: "(item \<times> int) list option"
  Time :: int

text \<open>Python's \<open>inf\<close> next to the integers: what a heuristic returns and a priority holds.\<close>

datatype number = Fin int | PInf

section \<open>make\_checker\<close>

fun check_consumes :: "state \<Rightarrow> (item \<times> int) list \<Rightarrow> error + bool" where
  "check_consumes st [] = Inr True"
| "check_consumes st ((consumedItem, n) # rest) =
     (case getitem st consumedItem of
        Inl e \<Rightarrow> Inl e
      | Inr v \<Rightarrow> if v - n < 0 then Inr False else check_consumes st rest)"

fun check_requires :: "state \<Rightarrow> (item \<times> bool) list \<Rightarrow> error + bool" where
  "check_requires st [] = Inr True"
| "check_requires st ((requiredItem, flag) # rest) =
     (case getitem st requiredItem of
        Inl e \<Rightarrow> Inl e
      | Inr v \<Rightarrow> if v = 0 then Inr False else check_requires st rest)"

definition make_checker :: "rule \<Rightarrow> state \<Rightarrow> error + bool" where
  "make_checker r st =
     (case (case Consumes r of None \<Rightarrow> Inr True | Some cs \<Rightarrow> check_consumes st cs) of
        Inl e \<Rightarrow> Inl e
      | Inr enough \<Rightarrow>
          if \<not> enough then Inr False
          else (case Requires r of None \<Rightarrow> Inr True | Some rs \<Rightarrow> check_requires st rs))"

section \<open>make\_effector\<close>

text \<open>
  Both loops read the quantity from the argument \<open>state\<close> and write into \<open>next_state\<close>.
\<close>

fun apply_produces :: "state \<Rightarrow> state \<Rightarrow> (item \<times> int) list \<Rightarrow> error + state" where
  "apply_produces st next_state [] = Inr next_state"
| "apply_produces st next_state ((produce, n) # rest) =
     (case getitem st produce of
        Inl e \<Rightarrow> Inl e
      | Inr v \<Rightarrow> apply_produces st (AList.update produce (v + n) next_state) rest)"

fun apply_consumes :: "state \<Rightarrow> state \<Rightarrow> (item \<times> int) list \<Rightarrow> error + state" where
  "apply_consumes st next_state [] = Inr next_state"
| "apply_consumes st next_state ((consume, n) # rest) =
     (case getitem st consume of
        Inl e \<Rightarrow> Inl e
      | Inr v \<Rightarrow> apply_consumes st (AList.update consume (v - n) next_state) rest)"

definition make_effector :: "rule \<Rightarrow> state \<Rightarrow> error + state" where
  "make_effector r st =
     (case (case Produces r of None \<Rightarrow> Inr st | Some ps \<Rightarrow> apply_produces st st ps) of
        Inl e \<Rightarrow> Inl e
      | Inr next_state \<Rightarrow>
          (case Consumes r of
             None \<Rightarrow> Inr next_state
           | Some cs \<Rightarrow> apply_consumes st next_state cs))"

section \<open>make\_goal\_checker\<close>

fun make_goal_checker :: "(item \<times> int) list \<Rightarrow> state \<Rightarrow> error + bool" where
  "make_goal_checker [] st = Inr True"
| "make_goal_checker ((singleGoal, n) # rest) st =
     (case getitem st singleGoal of
        Inl e \<Rightarrow> Inl e
      | Inr v \<Rightarrow> if v < n then Inr False else make_goal_checker rest st)"

section \<open>heuristic\<close>

definition tools :: "item list" where
  "tools = [''bench'', ''wooden_pickaxe'', ''wooden_axe'', ''stone_axe'', ''stone_pickaxe'',
            ''iron_pickaxe'', ''iron_axe'', ''furnace'']"

text \<open>
  The body of the loop over \<open>tools\<close> ends in \<open>return 0\<close>, so the first iteration
  returns whatever the first tool decides; the loop never reaches a second tool.
\<close>

fun heuristic_loop :: "state \<Rightarrow> item list \<Rightarrow> error + number" where
  "heuristic_loop st [] = Inr (Fin 0)"
| "heuristic_loop st (tool # rest) =
     (case getitem st tool of
        Inl e \<Rightarrow> Inl e
      | Inr v \<Rightarrow> if v > 1 then Inr PInf else Inr (Fin 0))"

definition heuristic :: "state \<Rightarrow> error + number" where
  "heuristic st = heuristic_loop st tools"

section \<open>Items of a rule\<close>

definition clause_items :: "(item \<times> 'a) list option \<Rightarrow> (item \<times> 'a) list" where
  "clause_items c = (case c of None \<Rightarrow> [] | Some xs \<Rightarrow> xs)"

definition rule_items :: "rule \<Rightarrow> item set" where
  "rule_items r = fst ` set (clause_items (Requires r))
                \<union> fst ` set (clause_items (Consumes r))
                \<union> fst ` set (clause_items (Produces r))"

definition has_items :: "state \<Rightarrow> item set \<Rightarrow> bool" where
  "has_items st ks = (ks \<subseteq> fst ` set st)"

section \<open>Recipes and the transition graph\<close>

text \<open>
  \<open>Recipe = namedtuple('Recipe', ['name', 'check', 'effect', 'cost'])\<close>; the main block
  builds one per rule, \<open>Recipe(name, make_checker(rule), make_effector(rule), rule['Time'])\<close>.
\<close>

record recipe =
  name :: string
  check :: "state \<Rightarrow> error + bool"
  effect :: "state \<Rightarrow> error + state"
  cost :: int

definition make_recipe :: "string \<times> rule \<Rightarrow> recipe" where
  "make_recipe nr = (case nr of (n, r) \<Rightarrow>
     \<lparr>name = n, check = make_checker r, effect = make_effector r, cost = Time r\<rparr>)"

type_synonym triple = "string \<times> state \<times> int"

text \<open>
  \<open>graph\<close> is a generator over the global \<open>all_recipes\<close>, here its first argument. What a
  consumer sees is the triples yielded so far and, if \<open>check\<close> or \<open>effect\<close> raises, the
  exception that ends the enumeration: the result is that list of triples and that
  exception, if any.
\<close>

fun graph :: "recipe list \<Rightarrow> state \<Rightarrow> triple list \<times> error option" where
  "graph [] st = ([], None)"
| "graph (r # rs) st =
     (case check r st of
        Inl e \<Rightarrow> ([], Some e)
      | Inr ok \<Rightarrow>
          if ok then
            (case effect r st of
               Inl e \<Rightarrow> ([], Some e)
             | Inr st' \<Rightarrow> (case graph rs st of (ts, err) \<Rightarrow> ((name r, st', cost r) # ts, err)))
          else graph rs st)"

section \<open>The frontier\<close>

text \<open>
  The frontier is a \<open>heapq\<close> of tuples \<open>(priority, state)\<close>. Python compares tuples
  lexicographically: the first components that are not \<open>==\<close> decide by \<open><\<close>. Priorities
  are integers or \<open>inf\<close>; states compare by \<open>State.__lt__\<close>, that is, by their tuples of
  items \<open>(name, quantity)\<close>, names being compared as strings, by code point.
\<close>

fun str_lt :: "string \<Rightarrow> string \<Rightarrow> bool" where
  "str_lt [] [] = False"
| "str_lt [] (y # ys) = True"
| "str_lt (x # xs) [] = False"
| "str_lt (x # xs) (y # ys) =
     (if x = y then str_lt xs ys else (of_char x :: nat) < of_char y)"

fun state_lt :: "state \<Rightarrow> state \<Rightarrow> bool" where
  "state_lt [] [] = False"
| "state_lt [] (y # ys) = True"
| "state_lt (x # xs) [] = False"
| "state_lt ((k, v) # xs) ((k', v') # ys) =
     (if (k, v) = (k', v') then state_lt xs ys
      else if k = k' then v < v' else str_lt k k')"

fun number_lt :: "number \<Rightarrow> number \<Rightarrow> bool" where
  "number_lt (Fin a) (Fin b) = (a < b)"
| "number_lt (Fin a) PInf = True"
| "number_lt PInf b = False"

type_synonym entry = "number \<times> state"

definition entry_lt :: "entry \<Rightarrow> entry \<Rightarrow> bool" where
  "entry_lt x y = (case x of (p, s) \<Rightarrow> case y of (p', s') \<Rightarrow>
     if p = p' then (if s = s' then False else state_lt s s') else number_lt p p')"

text \<open>
  \<open>heapq\<close> keeps the list as a binary heap, of which a caller observes only what
  \<open>heappop\<close> returns: a least entry of the heap, the entries being totally ordered, and
  \<open>IndexError\<close> on an empty heap. The model keeps the entries in a list, in the order
  they were pushed; \<open>heappop\<close> takes out the least one.
\<close>

definition heappush :: "entry list \<Rightarrow> entry \<Rightarrow> entry list" where
  "heappush q e = q @ [e]"

definition heappop :: "entry list \<Rightarrow> error + (entry \<times> entry list)" where
  "heappop q =
     (case q of
        [] \<Rightarrow> Inl IndexError
      | x # xs \<Rightarrow>
          (let m = fold (\<lambda>e m. if entry_lt e m then e else m) xs x
           in Inr (m, remove1 m q)))"

text \<open>
  \<open>new_cost + heuristic(adj_state)\<close>: an integer plus an integer, or an integer plus
  the float \<open>inf\<close>. For the latter Python first converts the integer to a float, which
  raises \<open>OverflowError\<close> when the integer rounds to \<open>2 ^ 1024\<close> or beyond: from
  \<open>2 ^ 1024 - 2 ^ 970\<close> on, in magnitude. (Comparing an integer with \<open>inf\<close>, as the
  heap does, converts nothing and never raises.)
\<close>

definition float_limit :: int where
  "float_limit = 2 ^ 1024 - 2 ^ 970"

fun add_number :: "int \<Rightarrow> number \<Rightarrow> error + number" where
  "add_number c (Fin h) = Inr (Fin (c + h))"
| "add_number c PInf = (if float_limit \<le> \<bar>c\<bar> then Inl OverflowError else Inr PInf)"

section \<open>search\<close>

text \<open>
  The bookkeeping of one call: the frontier \<open>queue\<close> and the three dictionaries keyed
  by states. \<open>came_from\<close> and \<open>actions\<close> hold \<open>None\<close> for the start state, so their
  values are options. (\<open>path\<close> is built at the end; \<open>length\<close> is only printed.)
\<close>

record bookkeeping =
  queue :: "entry list"
  cost_so_far :: "state \<rightharpoonup> int"
  came_from :: "state \<rightharpoonup> state option"
  actions :: "state \<rightharpoonup> string option"

type_synonym path = "(state \<times> string option) list"

text \<open>What a call of \<open>search\<close> does: return a path, return \<open>None\<close>, or raise.\<close>

datatype result = Path path | NotFound | Raised error

definition init :: "state \<Rightarrow> bookkeeping" where
  "init st = \<lparr>queue = [(Fin 0, st)],
              cost_so_far = [st \<mapsto> 0],
              came_from = [st \<mapsto> None],
              actions = [st \<mapsto> None]\<rparr>"

text \<open>
  The body of \<open>for adj_action, adj_state, adj_cost in graph(current_state)\<close>, over the
  triples the generator yields.
\<close>

fun expand :: "(state \<Rightarrow> error + number) \<Rightarrow> state \<Rightarrow> triple list \<Rightarrow> bookkeeping
    \<Rightarrow> error + bookkeeping" where
  "expand heur current_state [] bk = Inr bk"
| "expand heur current_state ((adj_action, adj_state, adj_cost) # rest) bk =
     (case cost_so_far bk current_state of
        None \<Rightarrow> Inl KeyError
      | Some c \<Rightarrow>
          (let new_cost = c + adj_cost in
           if (case cost_so_far bk adj_state of None \<Rightarrow> True | Some old \<Rightarrow> new_cost < old)
           then
             (case heur adj_state of
                Inl e \<Rightarrow> Inl e
              | Inr h \<Rightarrow>
                  (case add_number new_cost h of
                     Inl e \<Rightarrow> Inl e
                   | Inr priority \<Rightarrow>
                       expand heur current_state rest
                         (bk\<lparr>cost_so_far := (cost_so_far bk)(adj_state \<mapsto> new_cost),
                             actions := (actions bk)(adj_state \<mapsto> Some adj_action),
                             queue := heappush (queue bk) (priority, adj_state),
                             came_from := (came_from bk)(adj_state \<mapsto> Some current_state)\<rparr>)))
           else expand heur current_state rest bk))"

text \<open>
  The inner \<open>while (current_state is not None)\<close> follows \<open>came_from\<close> and appends a link
  for every state on the way. Nothing in the loop bounds it: on a cycle of \<open>came_from\<close>
  it never ends, which is the value \<open>None\<close> of \<open>walk\<close>.
\<close>

partial_function (option) walk :: "bookkeeping \<Rightarrow> state option \<Rightarrow> path \<Rightarrow> (error + path) option"
  where
  "walk bk current_state path =
     (case current_state of
        None \<Rightarrow> Some (Inr path)
      | Some s \<Rightarrow>
          (case actions bk s of
             None \<Rightarrow> Some (Inl KeyError)
           | Some a \<Rightarrow>
               (case came_from bk s of
                  None \<Rightarrow> Some (Inl KeyError)
                | Some prev \<Rightarrow> walk bk prev (path @ [(s, a)]))))"

declare walk.simps [code]

text \<open>The branch \<open>if is_goal(current_state)\<close>: the path from the goal back, reversed.\<close>

definition reconstruct :: "bookkeeping \<Rightarrow> state \<Rightarrow> result option" where
  "reconstruct bk current_state =
     (case actions bk current_state of
        None \<Rightarrow> Some (Raised KeyError)
      | Some a \<Rightarrow>
          (case came_from bk current_state of
             None \<Rightarrow> Some (Raised KeyError)
           | Some prev \<Rightarrow>
               (case walk bk prev [(current_state, a)] of
                  None \<Rightarrow> None
                | Some (Inl e) \<Rightarrow> Some (Raised e)
                | Some (Inr path) \<Rightarrow>
                    (case cost_so_far bk current_state of
                       None \<Rightarrow> Some (Raised KeyError)
                     | Some c \<Rightarrow> Some (Path (rev path))))))"

text \<open>
  One iteration of \<open>while time() - start_time < limit\<close>, once the guard has held: either
  the call ends (\<open>Inl\<close>: with a result, or never, inside \<open>walk\<close>) or the loop goes on with
  the new bookkeeping (\<open>Inr\<close>).
\<close>

definition step :: "(state \<Rightarrow> triple list \<times> error option) \<Rightarrow> (state \<Rightarrow> error + bool)
    \<Rightarrow> (state \<Rightarrow> error + number) \<Rightarrow> bookkeeping \<Rightarrow> result option + bookkeeping" where
  "step graph_fn is_goal heur bk =
     (case heappop (queue bk) of
        Inl e \<Rightarrow> Inl (Some (Raised e))
      | Inr ((current_cost, current_state), q) \<Rightarrow>
          (case is_goal current_state of
             Inl e \<Rightarrow> Inl (Some (Raised e))
           | Inr goal \<Rightarrow>
               if goal then Inl (reconstruct (bk\<lparr>queue := q\<rparr>) current_state)
               else
                 (case graph_fn current_state of (ts, err) \<Rightarrow>
                    (case expand heur current_state ts (bk\<lparr>queue := q\<rparr>) of
                       Inl e \<Rightarrow> Inl (Some (Raised e))
                     | Inr bk' \<Rightarrow>
                         (case err of
                            Some e \<Rightarrow> Inl (Some (Raised e))
                          | None \<Rightarrow> Inr bk')))))"

text \<open>
  The wall clock is not part of the model. What the loop sees of it is how often the guard
  \<open>time() - start_time < limit\<close> holds before it fails for good, the clock never going
  back: that number of iterations, \<open>budget\<close>, stands for \<open>limit\<close>. A limit the clock has
  not reached at the first test is a budget of at least one.
\<close>

fun search_loop :: "(state \<Rightarrow> triple list \<times> error option) \<Rightarrow> (state \<Rightarrow> error + bool)
    \<Rightarrow> (state \<Rightarrow> error + number) \<Rightarrow> nat \<Rightarrow> bookkeeping \<Rightarrow> result option" where
  "search_loop graph_fn is_goal heur 0 bk = Some NotFound"
| "search_loop graph_fn is_goal heur (Suc budget) bk =
     (case step graph_fn is_goal heur bk of
        Inl r \<Rightarrow> r
      | Inr bk' \<Rightarrow> search_loop graph_fn is_goal heur budget bk')"

definition search :: "(state \<Rightarrow> triple list \<times> error option) \<Rightarrow> state \<Rightarrow> (state \<Rightarrow> error + bool)
    \<Rightarrow> nat \<Rightarrow> (state \<Rightarrow> error + number) \<Rightarrow> result option" where
  "search graph_fn st is_goal budget heur = search_loop graph_fn is_goal heur budget (init st)"

text \<open>The bookkeeping at the top of the loop after \<open>n\<close> full iterations, if the call gets there.\<close>

fun bookkeeping_after :: "(state \<Rightarrow> triple list \<times> error option) \<Rightarrow> (state \<Rightarrow> error + bool)
    \<Rightarrow> (state \<Rightarrow> error + number) \<Rightarrow> nat \<Rightarrow> bookkeeping \<Rightarrow> bookkeeping option" where
  "bookkeeping_after graph_fn is_goal heur 0 bk = Some bk"
| "bookkeeping_after graph_fn is_goal heur (Suc n) bk =
     (case step graph_fn is_goal heur bk of
        Inl r \<Rightarrow> None
      | Inr bk' \<Rightarrow> bookkeeping_after graph_fn is_goal heur n bk')"

section \<open>Properties of the bookkeeping and of a returned path\<close>

text \<open>
  Every state that is a key of \<open>came_from\<close> or of \<open>actions\<close>, or sits in an entry of
  the frontier, is a key of \<open>cost_so_far\<close>.
\<close>

definition tables_ok :: "bookkeeping \<Rightarrow> bool" where
  "tables_ok bk =
     (dom (came_from bk) \<subseteq> dom (cost_so_far bk)
      \<and> dom (actions bk) \<subseteq> dom (cost_so_far bk)
      \<and> snd ` set (queue bk) \<subseteq> dom (cost_so_far bk))"

text \<open>
  What the loop keeps true of the tables, for the start state \<open>start\<close>: the three
  dictionaries have the same keys, and the frontier holds only such keys; only the start
  state can have the predecessor \<open>None\<close>, and then its action is \<open>None\<close>; any other
  predecessor \<open>p\<close> of a state \<open>s\<close> is a key itself, was expanded (so it failed the goal
  test), and the action recorded for \<open>s\<close> is one the graph yields at \<open>p\<close> together
  with \<open>s\<close>.
\<close>

definition links_ok :: "state \<Rightarrow> (state \<Rightarrow> error + bool) \<Rightarrow> (state \<Rightarrow> triple list \<times> error option)
    \<Rightarrow> bookkeeping \<Rightarrow> bool" where
  "links_ok start is_goal graph_fn bk =
     (dom (came_from bk) = dom (cost_so_far bk)
      \<and> dom (actions bk) = dom (cost_so_far bk)
      \<and> snd ` set (queue bk) \<subseteq> dom (cost_so_far bk)
      \<and> (\<forall>s. came_from bk s = Some None \<longrightarrow> s = start \<and> actions bk s = Some None)
      \<and> (\<forall>s p. came_from bk s = Some (Some p) \<longrightarrow>
             p \<in> dom (cost_so_far bk) \<and> is_goal p = Inr False
             \<and> (\<exists>a c. actions bk s = Some (Some a) \<and> (a, s, c) \<in> set (fst (graph_fn p)))))"

text \<open>
  A list of links as \<open>walk\<close> builds it, from the goal backwards: every link carries the
  action recorded for its state, and the predecessor of its state is the state of the next
  link, or \<open>current_state\<close> for the last one.
\<close>

definition back_ok :: "bookkeeping \<Rightarrow> state option \<Rightarrow> path \<Rightarrow> bool" where
  "back_ok bk current_state links =
     (\<forall>i < length links.
        actions bk (fst (links ! i)) = Some (snd (links ! i))
        \<and> came_from bk (fst (links ! i)) =
            Some (if Suc i < length links then Some (fst (links ! Suc i)) else current_state))"

section \<open>The transition graph over a store of objects\<close>

text \<open>
  Whether \<open>effect\<close> changes the dictionary it is given depends on which object each
  assignment writes to. Here the states live in a store, a list of objects addressed by
  position; \<open>state.copy()\<close> allocates a new object at the end, and
  \<open>next_state[k] = ...\<close> writes into the object at the address of \<open>next_state\<close>, reading
  \<open>state[k]\<close> at the address of \<open>state\<close>. \<open>check\<close> only reads its argument. Addresses
  handed to these functions are those of allocated objects (below the length of the store).
\<close>

type_synonym store = "state list"

fun write_produces :: "store \<Rightarrow> nat \<Rightarrow> nat \<Rightarrow> (item \<times> int) list \<Rightarrow> store \<times> error option" where
  "write_produces h a nx [] = (h, None)"
| "write_produces h a nx ((produce, n) # rest) =
     (case getitem (h ! a) produce of
        Inl e \<Rightarrow> (h, Some e)
      | Inr v \<Rightarrow> write_produces (h[nx := AList.update produce (v + n) (h ! nx)]) a nx rest)"

fun write_consumes :: "store \<Rightarrow> nat \<Rightarrow> nat \<Rightarrow> (item \<times> int) list \<Rightarrow> store \<times> error option" where
  "write_consumes h a nx [] = (h, None)"
| "write_consumes h a nx ((consume, n) # rest) =
     (case getitem (h ! a) consume of
        Inl e \<Rightarrow> (h, Some e)
      | Inr v \<Rightarrow> write_consumes (h[nx := AList.update consume (v - n) (h ! nx)]) a nx rest)"

definition effect_store :: "rule \<Rightarrow> store \<Rightarrow> nat \<Rightarrow> store \<times> (error + nat)" where
  "effect_store r h a =
     (let nx = length h; h0 = h @ [h ! a] in
      case (case Produces r of None \<Rightarrow> (h0, None) | Some ps \<Rightarrow> write_produces h0 a nx ps) of
        (h1, Some e) \<Rightarrow> (h1, Inl e)
      | (h1, None) \<Rightarrow>
          (case (case Consumes r of None \<Rightarrow> (h1, None) | Some cs \<Rightarrow> write_consumes h1 a nx cs) of
             (h2, Some e) \<Rightarrow> (h2, Inl e)
           | (h2, None) \<Rightarrow> (h2, Inr nx)))"

fun graph_store :: "(string \<times> rule) list \<Rightarrow> store \<Rightarrow> nat
    \<Rightarrow> store \<times> (string \<times> nat \<times> int) list \<times> error option" where
  "graph_store [] h a = (h, [], None)"
| "graph_store ((n, r) # rs) h a =
     (case make_checker r (h ! a) of
        Inl e \<Rightarrow> (h, [], Some e)
      | Inr ok \<Rightarrow>
          if ok then
            (case effect_store r h a of
               (h1, Inl e) \<Rightarrow> (h1, [], Some e)
             | (h1, Inr nx) \<Rightarrow>
                 (case graph_store rs h1 a of (h2, ts, err) \<Rightarrow> (h2, (n, nx, Time r) # ts, err)))
          else graph_store rs h a)"

text \<open>The triples with the states their addresses hold.\<close>

definition resolve :: "store \<Rightarrow> (string \<times> nat \<times> int) list \<Rightarrow> triple list" where
  "resolve h ts = map (\<lambda>(n, b, c). (n, h ! b, c)) ts"

section \<open>Example data\<close>

text \<open>The scenario of the specification: one recipe turning one wood into four planks.\<close>

definition craft_plank :: rule where
  "craft_plank = \<lparr>Requires = None, Consumes = Some [(''wood'', 1)],
                   Produces = Some [(''plank'', 4)], Time = 1\<rparr>"

text \<open>A rule with all three clauses.\<close>

definition craft_at_bench :: rule where
  "craft_at_bench = \<lparr>Requires = Some [(''bench'', True)], Consumes = Some [(''wood'', 1)],
                      Produces = Some [(''plank'', 4)], Time = 1\<rparr>"

text \<open>A rule that produces and consumes the same item.\<close>

definition refine_ore :: rule where
  "refine_ore = \<lparr>Requires = None, Consumes = Some [(''ore'', 1)],
                  Produces = Some [(''ore'', 2)], Time = 1\<rparr>"

text \<open>An inventory holding every tool, two wooden pickaxes among them.\<close>

definition two_pickaxes :: state where
  "two_pickaxes = [(''bench'', 1), (''wooden_pickaxe'', 2), (''wooden_axe'', 0),
                   (''stone_axe'', 0), (''stone_pickaxe'', 0), (''iron_pickaxe'', 0),
                   (''iron_axe'', 0), (''furnace'', 0)]"

text \<open>Inventories for the rules above.\<close>

definition bench_no_wood :: state where
  "bench_no_wood = [(''bench'', 1), (''wood'', 0), (''plank'', 0)]"

definition bench_and_wood :: state where
  "bench_and_wood = [(''bench'', 1), (''wood'', 2), (''plank'', 0)]"

definition one_wood :: state where
  "one_wood = [(''wood'', 1), (''plank'', 0)]"

definition four_planks :: state where
  "four_planks = [(''wood'', 0), (''plank'', 4)]"

definition planks_and_more :: state where
  "planks_and_more = [(''plank'', 4), (''wood'', 7)]"

definition plank_goal :: "(item \<times> int) list" where
  "plank_goal = [(''plank'', 4)]"

definition more_planks_goal :: "(item \<times> int) list" where
  "more_planks_goal = [(''plank'', 8)]"

definition five_ore :: state where
  "five_ore = [(''ore'', 5)]"

definition four_ore :: state where
  "four_ore = [(''ore'', 4)]"

text \<open>The compiled recipe of the scenario, as the main block builds it.\<close>

definition plank_recipes :: "recipe list" where
  "plank_recipes = [make_recipe (''craft plank'', craft_plank)]"

text \<open>The rule that needs a bench, compiled, and the state it leads to from two wood.\<close>

definition bench_recipes :: "recipe list" where
  "bench_recipes = [make_recipe (''craft plank at bench'', craft_at_bench)]"

definition bench_planks :: state where
  "bench_planks = [(''bench'', 1), (''wood'', 1), (''plank'', 4)]"

definition bench_path :: path where
  "bench_path = [(bench_and_wood, None), (bench_planks, Some ''craft plank at bench'')]"

text \<open>The same rule before compilation, and a store holding one state, then two.\<close>

definition bench_rules :: "(string \<times> rule) list" where
  "bench_rules = [(''craft plank at bench'', craft_at_bench)]"

definition one_object :: store where
  "one_object = [bench_and_wood]"

definition two_objects :: store where
  "two_objects = [bench_and_wood, bench_planks]"

definition bench_triples :: "(string \<times> nat \<times> int) list" where
  "bench_triples = [(''craft plank at bench'', 1, 1)]"

section \<open>Lookups in a state that has the key\<close>

lemma has_key: "k \<in> fst ` set st \<Longrightarrow> \<exists>v. map_of st k = Some v"
  by (metis domD dom_map_of_conv_image_fst)

section \<open>The precondition check\<close>

lemma check_consumes_char:
  "fst ` set cs \<subseteq> fst ` set st \<Longrightarrow>
   check_consumes st cs = Inr (\<not> (\<exists>(k, n) \<in> set cs. \<exists>v. map_of st k = Some v \<and> v < n))"
proof (induction cs)
  case Nil
  then show ?case by simp
next
  case (Cons a cs)
  obtain k n where a: "a = (k, n)" by (cases a)
  from Cons.prems a have "k \<in> fst ` set st" by simp
  then have "\<exists>v. map_of st k = Some v" by (rule has_key)
  then obtain v where v: "map_of st k = Some v" ..
  from Cons.prems have "fst ` set cs \<subseteq> fst ` set st" by simp
  with Cons.IH v a show ?case by (auto simp: getitem_def)
qed

lemma check_requires_char:
  "fst ` set rs \<subseteq> fst ` set st \<Longrightarrow>
   check_requires st rs = Inr (\<not> (\<exists>k \<in> fst ` set rs. map_of st k = Some 0))"
proof (induction rs)
  case Nil
  then show ?case by simp
next
  case (Cons a rs)
  obtain k f where a: "a = (k, f)" by (cases a)
  from Cons.prems a have "k \<in> fst ` set st" by simp
  then have "\<exists>v. map_of st k = Some v" by (rule has_key)
  then obtain v where v: "map_of st k = Some v" ..
  from Cons.prems have "fst ` set rs \<subseteq> fst ` set st" by simp
  with Cons.IH v a show ?case by (auto simp: getitem_def)
qed

text \<open>
  C4. On a state that holds every item of the rule, the compiled check returns false
  exactly when some item of \<open>Requires\<close> has quantity zero or some item of \<open>Consumes\<close>
  has less than the amount consumed, and true otherwise; a missing clause has no items
  and so constrains nothing.
\<close>

theorem make_checker_correct:
  assumes "has_items st (rule_items r)"
  shows "make_checker r st =
           Inr (\<not> ((\<exists>k \<in> fst ` set (clause_items (Requires r)). map_of st k = Some 0)
                 \<or> (\<exists>(k, n) \<in> set (clause_items (Consumes r)).
                        \<exists>v. map_of st k = Some v \<and> v < n)))"
proof -
  from assms have c: "fst ` set (clause_items (Consumes r)) \<subseteq> fst ` set st"
    and q: "fst ` set (clause_items (Requires r)) \<subseteq> fst ` set st"
    by (auto simp: has_items_def rule_items_def)
  show ?thesis
  proof (cases "Consumes r")
    case None
    show ?thesis
    proof (cases "Requires r")
      case None
      with \<open>Consumes r = None\<close> show ?thesis by (simp add: make_checker_def clause_items_def)
    next
      case (Some rs)
      with q have "fst ` set rs \<subseteq> fst ` set st" by (simp add: clause_items_def)
      from check_requires_char [OF this] Some \<open>Consumes r = None\<close>
      show ?thesis by (simp add: make_checker_def clause_items_def)
    qed
  next
    case (Some cs)
    with c have "fst ` set cs \<subseteq> fst ` set st" by (simp add: clause_items_def)
    note cc = check_consumes_char [OF this]
    show ?thesis
    proof (cases "Requires r")
      case None
      with Some cc show ?thesis by (simp add: make_checker_def clause_items_def)
    next
      case (Some rs)
      with q have "fst ` set rs \<subseteq> fst ` set st" by (simp add: clause_items_def)
      from check_requires_char [OF this] Some \<open>Consumes r = Some cs\<close> cc
      show ?thesis by (auto simp: make_checker_def clause_items_def)
    qed
  qed
qed

theorem make_checker_correct_witness:
  "has_items bench_no_wood (rule_items craft_at_bench)
   \<and> make_checker craft_at_bench bench_no_wood =
       Inr (\<not> ((\<exists>k \<in> fst ` set (clause_items (Requires craft_at_bench)).
                   map_of bench_no_wood k = Some 0)
             \<or> (\<exists>(k, n) \<in> set (clause_items (Consumes craft_at_bench)).
                   \<exists>v. map_of bench_no_wood k = Some v \<and> v < n)))
   \<and> make_checker craft_at_bench bench_no_wood = Inr False
   \<and> make_checker craft_at_bench bench_and_wood = Inr True"
proof -
  have h: "has_items bench_no_wood (rule_items craft_at_bench)"
    by code_simp
  have v: "make_checker craft_at_bench bench_no_wood = Inr False"
    by code_simp
  have v': "make_checker craft_at_bench bench_and_wood = Inr True"
    by code_simp
  note t = make_checker_correct [OF h]
  show ?thesis by (rule conjI [OF h conjI [OF t conjI [OF v v']]])
qed

section \<open>The goal predicate\<close>

lemma goal_char:
  "fst ` set goal \<subseteq> fst ` set st \<Longrightarrow>
   make_goal_checker goal st = Inr (\<forall>(k, n) \<in> set goal. \<exists>v. map_of st k = Some v \<and> n \<le> v)"
proof (induction goal)
  case Nil
  then show ?case by simp
next
  case (Cons a goal)
  obtain k n where a: "a = (k, n)" by (cases a)
  from Cons.prems a have "k \<in> fst ` set st" by simp
  then have "\<exists>v. map_of st k = Some v" by (rule has_key)
  then obtain v where v: "map_of st k = Some v" ..
  from Cons.prems have "fst ` set goal \<subseteq> fst ` set st" by simp
  with Cons.IH v a show ?case by (auto simp: getitem_def)
qed

lemma goal_frame:
  "\<forall>k \<in> fst ` set goal. map_of st k = map_of st' k \<Longrightarrow>
   make_goal_checker goal st = make_goal_checker goal st'"
  by (induction goal) (auto simp: getitem_def split: option.splits)

text \<open>
  C5. On a state that holds every item of the goal, the goal predicate is true exactly
  when every item of the goal has at least the required quantity; and any state with the
  same quantities of the goal's items gets the same answer, whatever else it holds.
\<close>

theorem make_goal_checker_correct:
  assumes "has_items st (fst ` set goal)"
  shows "make_goal_checker goal st =
           Inr (\<forall>(k, n) \<in> set goal. \<exists>v. map_of st k = Some v \<and> n \<le> v)
         \<and> (\<forall>st'. (\<forall>k \<in> fst ` set goal. map_of st' k = map_of st k)
                \<longrightarrow> make_goal_checker goal st' = make_goal_checker goal st)"
proof
  from assms show "make_goal_checker goal st =
           Inr (\<forall>(k, n) \<in> set goal. \<exists>v. map_of st k = Some v \<and> n \<le> v)"
    by (simp add: has_items_def goal_char)
next
  show "\<forall>st'. (\<forall>k \<in> fst ` set goal. map_of st' k = map_of st k)
                \<longrightarrow> make_goal_checker goal st' = make_goal_checker goal st"
  proof (intro allI impI)
    fix st'
    assume "\<forall>k \<in> fst ` set goal. map_of st' k = map_of st k"
    then have "\<forall>k \<in> fst ` set goal. map_of st k = map_of st' k" by simp
    then show "make_goal_checker goal st' = make_goal_checker goal st"
      by (rule goal_frame [symmetric])
  qed
qed

theorem make_goal_checker_correct_witness:
  "has_items four_planks (fst ` set plank_goal)
   \<and> make_goal_checker plank_goal four_planks = Inr True
   \<and> make_goal_checker plank_goal planks_and_more = make_goal_checker plank_goal four_planks"
proof -
  have h: "has_items four_planks (fst ` set plank_goal)"
    by code_simp
  have f: "\<forall>k \<in> fst ` set plank_goal. map_of planks_and_more k = map_of four_planks k"
    by code_simp
  have v: "make_goal_checker plank_goal four_planks = Inr True"
    by code_simp
  from make_goal_checker_correct [OF h]
  have "\<forall>st'. (\<forall>k \<in> fst ` set plank_goal. map_of st' k = map_of four_planks k)
          \<longrightarrow> make_goal_checker plank_goal st' = make_goal_checker plank_goal four_planks"
    by (rule conjunct2)
  then have "(\<forall>k \<in> fst ` set plank_goal. map_of planks_and_more k = map_of four_planks k)
          \<longrightarrow> make_goal_checker plank_goal planks_and_more =
              make_goal_checker plank_goal four_planks"
    by (rule spec)
  from this f
  have e: "make_goal_checker plank_goal planks_and_more = make_goal_checker plank_goal four_planks"
    by (rule mp)
  show ?thesis by (rule conjI [OF h conjI [OF v e]])
qed

section \<open>The effect\<close>

lemma update_nonneg:
  "\<forall>(k, v) \<in> set al. (0::int) \<le> v \<Longrightarrow> 0 \<le> w \<Longrightarrow>
   \<forall>(k, v) \<in> set (AList.update x w al). 0 \<le> v"
  by (induction al) auto

lemma apply_produces_nonneg:
  "fst ` set ps \<subseteq> fst ` set st \<Longrightarrow> \<forall>(k, v) \<in> set st. 0 \<le> v \<Longrightarrow>
   \<forall>(k, n) \<in> set ps. 0 \<le> n \<Longrightarrow> \<forall>(k, v) \<in> set nx. 0 \<le> v \<Longrightarrow>
   \<exists>nx'. apply_produces st nx ps = Inr nx' \<and> (\<forall>(k, v) \<in> set nx'. 0 \<le> v)"
proof (induction ps arbitrary: nx)
  case Nil
  then show ?case by simp
next
  case (Cons a ps)
  obtain k n where a: "a = (k, n)" by (cases a)
  from Cons.prems a have "k \<in> fst ` set st" by simp
  then have "\<exists>v. map_of st k = Some v" by (rule has_key)
  then obtain v where v: "map_of st k = Some v" ..
  then have "(k, v) \<in> set st" by (rule map_of_SomeD)
  with Cons.prems(2) have "0 \<le> v" by auto
  moreover from Cons.prems(3) a have "0 \<le> n" by simp
  ultimately have "0 \<le> v + n" by simp
  from update_nonneg [OF Cons.prems(4) this]
  have nn: "\<forall>(k, v) \<in> set (AList.update k (v + n) nx). 0 \<le> v" .
  from Cons.prems have "fst ` set ps \<subseteq> fst ` set st" "\<forall>(k, n) \<in> set ps. 0 \<le> n" by auto
  from Cons.IH [OF this(1) Cons.prems(2) this(2) nn] v a
  show ?case by (simp add: getitem_def)
qed

lemma apply_consumes_nonneg:
  "check_consumes st cs = Inr True \<Longrightarrow> \<forall>(k, v) \<in> set nx. 0 \<le> v \<Longrightarrow>
   \<exists>nx'. apply_consumes st nx cs = Inr nx' \<and> (\<forall>(k, v) \<in> set nx'. 0 \<le> v)"
proof (induction cs arbitrary: nx)
  case Nil
  then show ?case by simp
next
  case (Cons a cs)
  obtain k n where a: "a = (k, n)" by (cases a)
  from Cons.prems(1) a obtain v where v: "getitem st k = Inr v" and ge: "\<not> v - n < 0"
    and rest: "check_consumes st cs = Inr True"
    by (auto split: sum.splits if_splits)
  from ge have "0 \<le> v - n" by simp
  from update_nonneg [OF Cons.prems(2) this]
  have nn: "\<forall>(k, v) \<in> set (AList.update k (v - n) nx). 0 \<le> v" .
  from Cons.IH [OF rest nn] v a show ?case by simp
qed

text \<open>
  C7. If the compiled check passes on a state that holds the rule's items with
  non-negative quantities, and the rule produces non-negative amounts, then the compiled
  effect returns a state, and every quantity in it is non-negative. (What the rule
  consumes is covered by the check, whatever its sign.)
\<close>

theorem effect_nonneg:
  assumes chk: "make_checker r st = Inr True"
    and items: "has_items st (rule_items r)"
    and st: "\<forall>(k, v) \<in> set st. 0 \<le> v"
    and prod: "\<forall>(k, n) \<in> set (clause_items (Produces r)). 0 \<le> n"
  shows "\<exists>st'. make_effector r st = Inr st' \<and> (\<forall>(k, v) \<in> set st'. 0 \<le> v)"
proof -
  have "\<exists>nx. (case Produces r of None \<Rightarrow> Inr st | Some ps \<Rightarrow> apply_produces st st ps) = Inr nx
          \<and> (\<forall>(k, v) \<in> set nx. 0 \<le> v)"
  proof (cases "Produces r")
    case None
    with st show ?thesis by simp
  next
    case (Some ps)
    with items prod have "fst ` set ps \<subseteq> fst ` set st" "\<forall>(k, n) \<in> set ps. 0 \<le> n"
      by (auto simp: has_items_def rule_items_def clause_items_def)
    from apply_produces_nonneg [OF this(1) st this(2) st] Some show ?thesis by simp
  qed
  then obtain nx
    where nx: "(case Produces r of None \<Rightarrow> Inr st | Some ps \<Rightarrow> apply_produces st st ps) = Inr nx"
      and nn: "\<forall>(k, v) \<in> set nx. 0 \<le> v" by blast
  show ?thesis
  proof (cases "Consumes r")
    case None
    with nx nn show ?thesis by (simp add: make_effector_def)
  next
    case (Some cs)
    with chk have "check_consumes st cs = Inr True"
      by (auto simp: make_checker_def split: sum.splits if_splits)
    from apply_consumes_nonneg [OF this nn] Some nx show ?thesis
      by (simp add: make_effector_def)
  qed
qed

theorem effect_nonneg_witness:
  "make_checker craft_plank one_wood = Inr True
   \<and> has_items one_wood (rule_items craft_plank)
   \<and> (\<exists>st'. make_effector craft_plank one_wood = Inr st' \<and> (\<forall>(k, v) \<in> set st'. 0 \<le> v))
   \<and> make_effector craft_plank one_wood = Inr four_planks"
proof -
  have c: "make_checker craft_plank one_wood = Inr True" by code_simp
  have h: "has_items one_wood (rule_items craft_plank)" by code_simp
  have s: "\<forall>(k, v) \<in> set one_wood. 0 \<le> v" by code_simp
  have p: "\<forall>(k, n) \<in> set (clause_items (Produces craft_plank)). 0 \<le> n" by code_simp
  have v: "make_effector craft_plank one_wood = Inr four_planks" by code_simp
  note t = effect_nonneg [OF c h s p]
  show ?thesis by (rule conjI [OF c conjI [OF h conjI [OF t v]]])
qed

text \<open>
  C2 fails where an item is both produced and consumed. The second loop reads the
  quantity from the argument state, not from \<open>next_state\<close>, so its assignment replaces
  what the first loop wrote: with five ore, producing two and consuming one leaves four,
  not six.
\<close>

theorem effect_overwrites_produced:
  "has_items five_ore (rule_items refine_ore)
   \<and> make_effector refine_ore five_ore = Inr four_ore"
  by code_simp

section \<open>The heuristic\<close>

text \<open>
  C3 fails for every tool but the first. With one bench and two wooden pickaxes (and
  every other tool present), the heuristic returns 0, not \<open>inf\<close>: the loop returns in
  its first iteration, after looking at \<open>bench\<close> only.
\<close>

theorem heuristic_checks_first_tool_only:
  "has_items two_pickaxes (set tools)
   \<and> getitem two_pickaxes ''wooden_pickaxe'' = Inr 2
   \<and> heuristic two_pickaxes = Inr (Fin 0)"
  by code_simp

section \<open>The search\<close>

lemma heappop_single: "heappop [e] = Inr (e, [])"
  by (simp add: heappop_def)



text \<open>
  C1 fails when the frontier runs empty before the clock reaches the limit. With no
  recipe at all and a start state short of the goal, the first iteration pops the start
  state and pushes nothing; at the second, \<open>heappop\<close> raises \<open>IndexError\<close> on the empty
  list. So it goes for every budget of two iterations or more.
\<close>

theorem search_raises_on_empty_frontier:
  "search (graph []) one_wood (make_goal_checker plank_goal) (Suc (Suc budget)) heuristic
     = Some (Raised IndexError)"
proof -
  have g: "make_goal_checker plank_goal one_wood = Inr False" by code_simp
  have 1: "step (graph []) (make_goal_checker plank_goal) heuristic (init one_wood)
             = Inr ((init one_wood)\<lparr>queue := []\<rparr>)"
    using g by (simp add: step_def init_def heappop_single)
  have 2: "step (graph []) (make_goal_checker plank_goal) heuristic ((init one_wood)\<lparr>queue := []\<rparr>)
             = Inl (Some (Raised IndexError))"
    by (simp add: step_def heappop_def)
  from 1 2 show ?thesis by (simp add: search_def)
qed

section \<open>The bookkeeping invariant\<close>

lemma links_ok_init: "links_ok st is_goal graph_fn (init st)"
  by (simp add: links_ok_def init_def)

lemma fold_least_mem:
  "fold (\<lambda>e m. if entry_lt e m then e else m) xs x \<in> set (x # xs)"
proof (induction xs arbitrary: x)
  case Nil
  show ?case by simp
next
  case (Cons y ys)
  have "fold (\<lambda>e m. if entry_lt e m then e else m) ys (if entry_lt y x then y else x)
          \<in> set ((if entry_lt y x then y else x) # ys)"
    by (rule Cons.IH)
  then show ?case by (auto split: if_splits)
qed

lemma heappop_mem:
  assumes "heappop q = Inr (e, q')"
  shows "e \<in> set q \<and> set q' \<subseteq> set q"
proof (cases q)
  case Nil
  with assms show ?thesis by (simp add: heappop_def)
next
  case (Cons x xs)
  with assms have e: "e = fold (\<lambda>e m. if entry_lt e m then e else m) xs x"
    and q': "q' = remove1 e q"
    by (auto simp: heappop_def Let_def)
  from e fold_least_mem [of xs x] Cons have "e \<in> set q" by simp
  moreover from q' have "set q' \<subseteq> set q" by (simp add: set_remove1_subset)
  ultimately show ?thesis ..
qed

lemma links_ok_queue:
  assumes "links_ok start is_goal graph_fn bk" and "set q \<subseteq> set (queue bk)"
  shows "links_ok start is_goal graph_fn (bk\<lparr>queue := q\<rparr>)"
proof -
  from assms(1) have "snd ` set (queue bk) \<subseteq> dom (cost_so_far bk)"
    by (simp add: links_ok_def)
  with assms(2) have "snd ` set q \<subseteq> dom (cost_so_far bk)" by blast
  with assms(1) show ?thesis by (simp add: links_ok_def)
qed

lemma links_ok_doms:
  assumes "links_ok start is_goal graph_fn bk"
  shows "dom (came_from bk) = dom (cost_so_far bk)"
    and "dom (actions bk) = dom (cost_so_far bk)"
    and "snd ` set (queue bk) \<subseteq> dom (cost_so_far bk)"
  using assms by (simp_all add: links_ok_def)

lemma links_ok_start:
  assumes "links_ok start is_goal graph_fn bk" and "came_from bk s = Some None"
  shows "s = start \<and> actions bk s = Some None"
proof -
  from assms(1)
  have "\<forall>s. came_from bk s = Some None \<longrightarrow> s = start \<and> actions bk s = Some None"
    by (simp add: links_ok_def)
  with assms(2) show ?thesis by blast
qed

lemma links_ok_link:
  assumes "links_ok start is_goal graph_fn bk" and "came_from bk s = Some (Some p)"
  shows "p \<in> dom (cost_so_far bk) \<and> is_goal p = Inr False
         \<and> (\<exists>a c. actions bk s = Some (Some a) \<and> (a, s, c) \<in> set (fst (graph_fn p)))"
proof -
  from assms(1)
  have "\<forall>s p. came_from bk s = Some (Some p) \<longrightarrow>
             p \<in> dom (cost_so_far bk) \<and> is_goal p = Inr False
             \<and> (\<exists>a c. actions bk s = Some (Some a) \<and> (a, s, c) \<in> set (fst (graph_fn p)))"
    by (simp add: links_ok_def)
  then have "came_from bk s = Some (Some p) \<longrightarrow>
             p \<in> dom (cost_so_far bk) \<and> is_goal p = Inr False
             \<and> (\<exists>a c. actions bk s = Some (Some a) \<and> (a, s, c) \<in> set (fst (graph_fn p)))"
    by (elim allE [where x = s] allE [where x = p])
  from this assms(2) show ?thesis by (rule mp)
qed

lemma links_okI:
  assumes "dom (came_from bk) = dom (cost_so_far bk)"
    and "dom (actions bk) = dom (cost_so_far bk)"
    and "snd ` set (queue bk) \<subseteq> dom (cost_so_far bk)"
    and "\<forall>s. came_from bk s = Some None \<longrightarrow> s = start \<and> actions bk s = Some None"
    and "\<forall>s p. came_from bk s = Some (Some p) \<longrightarrow>
             p \<in> dom (cost_so_far bk) \<and> is_goal p = Inr False
             \<and> (\<exists>a c. actions bk s = Some (Some a) \<and> (a, s, c) \<in> set (fst (graph_fn p)))"
  shows "links_ok start is_goal graph_fn bk"
  unfolding links_ok_def using assms by (intro conjI)

lemma links_ok_update:
  assumes inv: "links_ok start is_goal graph_fn bk"
    and cur: "cur \<in> dom (cost_so_far bk)"
    and ng: "is_goal cur = Inr False"
    and tr: "(a, s', c) \<in> set (fst (graph_fn cur))"
  shows "links_ok start is_goal graph_fn
           (bk\<lparr>cost_so_far := (cost_so_far bk)(s' \<mapsto> nc),
               actions := (actions bk)(s' \<mapsto> Some a),
               queue := heappush (queue bk) (pr, s'),
               came_from := (came_from bk)(s' \<mapsto> Some cur)\<rparr>)"
proof -
  define bk' where "bk' = bk\<lparr>cost_so_far := (cost_so_far bk)(s' \<mapsto> nc),
               actions := (actions bk)(s' \<mapsto> Some a),
               queue := heappush (queue bk) (pr, s'),
               came_from := (came_from bk)(s' \<mapsto> Some cur)\<rparr>"
  have co: "cost_so_far bk' = (cost_so_far bk)(s' \<mapsto> nc)"
    and ac: "actions bk' = (actions bk)(s' \<mapsto> Some a)"
    and qu: "queue bk' = queue bk @ [(pr, s')]"
    and cf: "came_from bk' = (came_from bk)(s' \<mapsto> Some cur)"
    by (simp_all add: bk'_def heappush_def)
  note d = links_ok_doms [OF inv]
  have 1: "dom (came_from bk') = dom (cost_so_far bk')" using d(1) by (simp add: co cf)
  have 2: "dom (actions bk') = dom (cost_so_far bk')" using d(2) by (simp add: co ac)
  have 3: "snd ` set (queue bk') \<subseteq> dom (cost_so_far bk')"
  proof
    fix x assume "x \<in> snd ` set (queue bk')"
    then have "x = s' \<or> x \<in> snd ` set (queue bk)" by (auto simp: qu)
    with d(3) show "x \<in> dom (cost_so_far bk')" by (auto simp: co)
  qed
  have 4: "\<forall>s. came_from bk' s = Some None \<longrightarrow> s = start \<and> actions bk' s = Some None"
  proof (intro allI impI)
    fix s assume a: "came_from bk' s = Some None"
    then have ne: "s \<noteq> s'" by (auto simp: cf)
    with a have "came_from bk s = Some None" by (simp add: cf)
    from links_ok_start [OF inv this] ne
    show "s = start \<and> actions bk' s = Some None" by (auto simp: ac)
  qed
  have 5: "\<forall>s p. came_from bk' s = Some (Some p) \<longrightarrow>
             p \<in> dom (cost_so_far bk') \<and> is_goal p = Inr False
             \<and> (\<exists>a c. actions bk' s = Some (Some a) \<and> (a, s, c) \<in> set (fst (graph_fn p)))"
  proof (intro allI impI)
    fix s p assume a: "came_from bk' s = Some (Some p)"
    show "p \<in> dom (cost_so_far bk') \<and> is_goal p = Inr False
             \<and> (\<exists>a c. actions bk' s = Some (Some a) \<and> (a, s, c) \<in> set (fst (graph_fn p)))"
    proof (cases "s = s'")
      case True
      with a have p: "p = cur" by (simp add: cf)
      from cur have "cur \<in> dom (cost_so_far bk')" by (auto simp: co)
      moreover from True have "actions bk' s = Some (Some a)" by (simp add: ac)
      ultimately show ?thesis using p ng tr True by blast
    next
      case False
      with a have "came_from bk s = Some (Some p)" by (simp add: cf)
      from links_ok_link [OF inv this] obtain a' c' where pd: "p \<in> dom (cost_so_far bk)"
        and g: "is_goal p = Inr False" and a': "actions bk s = Some (Some a')"
        and m: "(a', s, c') \<in> set (fst (graph_fn p))" by blast
      from pd have "p \<in> dom (cost_so_far bk')" by (auto simp: co)
      moreover from a' False have "actions bk' s = Some (Some a')" by (simp add: ac)
      ultimately show ?thesis using g m by blast
    qed
  qed
  have "links_ok start is_goal graph_fn bk'" by (rule links_okI [OF 1 2 3 4 5])
  then show ?thesis by (simp only: bk'_def)
qed

lemma expand_links_ok:
  assumes "links_ok start is_goal graph_fn bk"
    and "cur \<in> dom (cost_so_far bk)"
    and "is_goal cur = Inr False"
    and "set ts \<subseteq> set (fst (graph_fn cur))"
    and "expand heur cur ts bk = Inr bk'"
  shows "links_ok start is_goal graph_fn bk'"
  using assms
proof (induction ts arbitrary: bk)
  case Nil
  then show ?case by simp
next
  case (Cons t ts)
  obtain a s' c where t: "t = (a, s', c)" by (cases t)
  from Cons.prems(2) obtain cc where cc: "cost_so_far bk cur = Some cc" by blast
  from Cons.prems(4) t have tr: "(a, s', c) \<in> set (fst (graph_fn cur))"
    and rest: "set ts \<subseteq> set (fst (graph_fn cur))" by simp_all
  show ?case
  proof (cases "case cost_so_far bk s' of None \<Rightarrow> True | Some old \<Rightarrow> cc + c < old")
    case False
    with Cons.prems(5) t cc have "expand heur cur ts bk = Inr bk'" by (simp add: Let_def)
    from Cons.IH [OF Cons.prems(1) Cons.prems(2) Cons.prems(3) rest this] show ?thesis .
  next
    case True
    with Cons.prems(5) t cc obtain h pri where h: "heur s' = Inr h"
      and pri: "add_number (cc + c) h = Inr pri"
      and e: "expand heur cur ts
                (bk\<lparr>cost_so_far := (cost_so_far bk)(s' \<mapsto> cc + c),
                    actions := (actions bk)(s' \<mapsto> Some a),
                    queue := heappush (queue bk) (pri, s'),
                    came_from := (came_from bk)(s' \<mapsto> Some cur)\<rparr>) = Inr bk'"
      by (auto simp: Let_def split: sum.splits)
    note inv = links_ok_update [OF Cons.prems(1) Cons.prems(2) Cons.prems(3) tr,
        where nc = "cc + c" and pr = pri]
    from Cons.prems(2)
    have d: "cur \<in> dom (cost_so_far
                (bk\<lparr>cost_so_far := (cost_so_far bk)(s' \<mapsto> cc + c),
                    actions := (actions bk)(s' \<mapsto> Some a),
                    queue := heappush (queue bk) (pri, s'),
                    came_from := (came_from bk)(s' \<mapsto> Some cur)\<rparr>))"
      by auto
    from Cons.IH [OF inv d Cons.prems(3) rest e] show ?thesis .
  qed
qed

lemma add_number_at_limit:
  "add_number (float_limit - 1) PInf = Inr PInf"
  "add_number float_limit PInf = Inl OverflowError"
  "add_number (- float_limit) PInf = Inl OverflowError"
  "add_number float_limit (Fin 0) = Inr (Fin float_limit)"
  by (simp_all add: float_limit_def)

lemma add_number_raises:
  "add_number c h = Inl e \<Longrightarrow> h = PInf \<and> e = OverflowError"
  by (cases h) (auto split: if_splits)

lemma expand_raises:
  assumes "cur \<in> dom (cost_so_far bk)" and "expand heur cur ts bk = Inl e"
  shows "\<exists>(a, s, c) \<in> set ts. heur s = Inl e \<or> (heur s = Inr PInf \<and> e = OverflowError)"
  using assms
proof (induction ts arbitrary: bk)
  case Nil
  then show ?case by simp
next
  case (Cons t ts)
  obtain a s' c where t: "t = (a, s', c)" by (cases t)
  from Cons.prems(1) obtain cc where cc: "cost_so_far bk cur = Some cc" by blast
  show ?case
  proof (cases "case cost_so_far bk s' of None \<Rightarrow> True | Some old \<Rightarrow> cc + c < old")
    case False
    with Cons.prems(2) t cc have "expand heur cur ts bk = Inl e" by (simp add: Let_def)
    from Cons.IH [OF Cons.prems(1) this] show ?thesis by auto
  next
    case True
    show ?thesis
    proof (cases "heur s'")
      case (Inl e')
      with Cons.prems(2) t cc True have "e' = e" by (simp add: Let_def)
      with Inl t show ?thesis by auto
    next
      case (Inr h)
      show ?thesis
      proof (cases "add_number (cc + c) h")
        case ovf: (Inl e')
        with Cons.prems(2) t cc True Inr have "e' = e" by (simp add: Let_def)
        with add_number_raises [OF ovf] Inr t show ?thesis by auto
      next
        case pri: (Inr pri)
        with Cons.prems(2) t cc True Inr
        have e: "expand heur cur ts
                  (bk\<lparr>cost_so_far := (cost_so_far bk)(s' \<mapsto> cc + c),
                      actions := (actions bk)(s' \<mapsto> Some a),
                      queue := heappush (queue bk) (pri, s'),
                      came_from := (came_from bk)(s' \<mapsto> Some cur)\<rparr>) = Inl e"
          by (simp add: Let_def)
        from Cons.prems(1)
        have d: "cur \<in> dom (cost_so_far
                  (bk\<lparr>cost_so_far := (cost_so_far bk)(s' \<mapsto> cc + c),
                      actions := (actions bk)(s' \<mapsto> Some a),
                      queue := heappush (queue bk) (pri, s'),
                      came_from := (came_from bk)(s' \<mapsto> Some cur)\<rparr>))"
          by auto
        from Cons.IH [OF d e] show ?thesis by auto
      qed
    qed
  qed
qed

text \<open>
  The bookkeeping in the course of an expansion. \<open>expand\<close> on the first neighbours is
  the bookkeeping the loop has reached when it turns to the next one.
\<close>

lemma expand_append:
  "expand heur cur (pre @ rest) bk =
     (case expand heur cur pre bk of Inl e \<Rightarrow> Inl e | Inr bk' \<Rightarrow> expand heur cur rest bk')"
proof (induction pre arbitrary: bk)
  case Nil
  show ?case by simp
next
  case (Cons t pre)
  obtain a s' c where t: "t = (a, s', c)" by (cases t)
  show ?case
    by (simp add: t Cons.IH Let_def split: option.splits sum.splits)
qed

lemma tables_ok_assignments:
  assumes "tables_ok bk"
  shows "tables_ok (bk\<lparr>cost_so_far := (cost_so_far bk)(s \<mapsto> nc)\<rparr>)"
    and "tables_ok (bk\<lparr>cost_so_far := (cost_so_far bk)(s \<mapsto> nc),
                       actions := (actions bk)(s \<mapsto> a)\<rparr>)"
    and "tables_ok (bk\<lparr>cost_so_far := (cost_so_far bk)(s \<mapsto> nc),
                       actions := (actions bk)(s \<mapsto> a),
                       queue := heappush (queue bk) (pr, s)\<rparr>)"
    and "tables_ok (bk\<lparr>cost_so_far := (cost_so_far bk)(s \<mapsto> nc),
                       actions := (actions bk)(s \<mapsto> a),
                       queue := heappush (queue bk) (pr, s),
                       came_from := (came_from bk)(s \<mapsto> p)\<rparr>)"
  using assms by (auto simp: tables_ok_def heappush_def)

lemma expand_tables_ok:
  assumes "tables_ok bk" and "cur \<in> dom (cost_so_far bk)"
    and "expand heur cur ts bk = Inr bk'"
  shows "tables_ok bk' \<and> cur \<in> dom (cost_so_far bk')"
  using assms
proof (induction ts arbitrary: bk)
  case Nil
  then show ?case by simp
next
  case (Cons t ts)
  obtain a s' c where t: "t = (a, s', c)" by (cases t)
  from Cons.prems(2) obtain cc where cc: "cost_so_far bk cur = Some cc" by blast
  show ?case
  proof (cases "case cost_so_far bk s' of None \<Rightarrow> True | Some old \<Rightarrow> cc + c < old")
    case False
    with Cons.prems(3) t cc have "expand heur cur ts bk = Inr bk'" by (simp add: Let_def)
    from Cons.IH [OF Cons.prems(1) Cons.prems(2) this] show ?thesis .
  next
    case True
    with Cons.prems(3) t cc obtain h pri where h: "heur s' = Inr h"
      and pri: "add_number (cc + c) h = Inr pri"
      and e: "expand heur cur ts
                (bk\<lparr>cost_so_far := (cost_so_far bk)(s' \<mapsto> cc + c),
                    actions := (actions bk)(s' \<mapsto> Some a),
                    queue := heappush (queue bk) (pri, s'),
                    came_from := (came_from bk)(s' \<mapsto> Some cur)\<rparr>) = Inr bk'"
      by (auto simp: Let_def split: sum.splits)
    note ok = tables_ok_assignments(4) [OF Cons.prems(1),
        where s = s' and nc = "cc + c" and a = "Some a" and pr = pri and p = "Some cur"]
    from Cons.prems(2)
    have d: "cur \<in> dom (cost_so_far
                (bk\<lparr>cost_so_far := (cost_so_far bk)(s' \<mapsto> cc + c),
                    actions := (actions bk)(s' \<mapsto> Some a),
                    queue := heappush (queue bk) (pri, s'),
                    came_from := (came_from bk)(s' \<mapsto> Some cur)\<rparr>))"
      by auto
    from Cons.IH [OF ok d e] show ?thesis .
  qed
qed

lemma links_ok_popped:
  assumes inv: "links_ok start is_goal graph_fn bk"
    and pop: "heappop (queue bk) = Inr ((pr, cur), q)"
  shows "links_ok start is_goal graph_fn (bk\<lparr>queue := q\<rparr>)"
    and "cur \<in> dom (cost_so_far (bk\<lparr>queue := q\<rparr>))"
proof -
  from heappop_mem [OF pop] have m: "(pr, cur) \<in> set (queue bk)"
    and sub: "set q \<subseteq> set (queue bk)" by simp_all
  from inv sub show "links_ok start is_goal graph_fn (bk\<lparr>queue := q\<rparr>)"
    by (rule links_ok_queue)
  from m have "cur \<in> snd ` set (queue bk)" by force
  with links_ok_doms(3) [OF inv] show "cur \<in> dom (cost_so_far (bk\<lparr>queue := q\<rparr>))"
    by auto
qed

lemma step_continues:
  assumes "step graph_fn is_goal heur bk = Inr bk'"
  obtains pr cur q ts where "heappop (queue bk) = Inr ((pr, cur), q)"
    and "is_goal cur = Inr False" and "graph_fn cur = (ts, None)"
    and "expand heur cur ts (bk\<lparr>queue := q\<rparr>) = Inr bk'"
  using assms unfolding step_def
  by (auto split: sum.splits prod.splits if_splits option.splits)

lemma step_links_ok:
  assumes inv: "links_ok start is_goal graph_fn bk"
    and st: "step graph_fn is_goal heur bk = Inr bk'"
  shows "links_ok start is_goal graph_fn bk'"
proof -
  from st obtain pr cur q ts where pop: "heappop (queue bk) = Inr ((pr, cur), q)"
    and ng: "is_goal cur = Inr False" and g: "graph_fn cur = (ts, None)"
    and e: "expand heur cur ts (bk\<lparr>queue := q\<rparr>) = Inr bk'"
    by (rule step_continues)
  from g have sub: "set ts \<subseteq> set (fst (graph_fn cur))" by simp
  from expand_links_ok [OF links_ok_popped [OF inv pop] ng sub e] show ?thesis .
qed

lemma bookkeeping_after_links_ok:
  assumes "links_ok start is_goal graph_fn bk"
    and "bookkeeping_after graph_fn is_goal heur n bk = Some bk'"
  shows "links_ok start is_goal graph_fn bk'"
  using assms
proof (induction n arbitrary: bk)
  case 0
  then show ?case by simp
next
  case (Suc n)
  from Suc.prems(2) obtain bk1 where s: "step graph_fn is_goal heur bk = Inr bk1"
    and r: "bookkeeping_after graph_fn is_goal heur n bk1 = Some bk'"
    by (auto split: sum.splits)
  from Suc.IH [OF step_links_ok [OF Suc.prems(1) s] r] show ?case .
qed

section \<open>Following the predecessors\<close>

lemmas walk_induct = walk.raw_induct [rotated 1, consumes 1, case_names step]

lemma walk_returns:
  assumes "walk bk cur acc = Some r"
  shows "links_ok start is_goal graph_fn bk \<Longrightarrow>
   (\<forall>s. cur = Some s \<longrightarrow> s \<in> dom (cost_so_far bk)) \<Longrightarrow> \<exists>p. r = Inr p"
  using assms
proof (induction rule: walk_induct)
  case (step w bk cur acc r)
  show ?case
  proof (cases cur)
    case None
    with step.hyps show ?thesis by auto
  next
    case (Some s)
    with step.prems(2) have sd: "s \<in> dom (cost_so_far bk)" by simp
    note d = links_ok_doms [OF step.prems(1)]
    from sd d(2) obtain a where a: "actions bk s = Some a" by blast
    from sd d(1) obtain prev where prev: "came_from bk s = Some prev" by blast
    from step.hyps Some a prev have w: "w bk prev (acc @ [(s, a)]) = Some r" by simp
    have "\<forall>p. prev = Some p \<longrightarrow> p \<in> dom (cost_so_far bk)"
    proof (intro allI impI)
      fix p assume "prev = Some p"
      with prev have "came_from bk s = Some (Some p)" by simp
      from links_ok_link [OF step.prems(1) this] show "p \<in> dom (cost_so_far bk)" by simp
    qed
    from step.IH [OF w step.prems(1) this] show ?thesis .
  qed
qed

lemma back_ok_snoc:
  assumes "back_ok bk (Some s) acc" and "actions bk s = Some a" and "came_from bk s = Some prev"
  shows "back_ok bk prev (acc @ [(s, a)])"
  unfolding back_ok_def
proof (intro allI impI)
  fix i assume i: "i < length (acc @ [(s, a)])"
  show "actions bk (fst ((acc @ [(s, a)]) ! i)) = Some (snd ((acc @ [(s, a)]) ! i))
        \<and> came_from bk (fst ((acc @ [(s, a)]) ! i)) =
            Some (if Suc i < length (acc @ [(s, a)])
                  then Some (fst ((acc @ [(s, a)]) ! Suc i)) else prev)"
  proof (cases "i < length acc")
    case True
    with assms(1) have o: "actions bk (fst (acc ! i)) = Some (snd (acc ! i))"
      "came_from bk (fst (acc ! i)) =
         Some (if Suc i < length acc then Some (fst (acc ! Suc i)) else Some s)"
      by (simp_all add: back_ok_def)
    show ?thesis
    proof (cases "Suc i < length acc")
      case True
      with o \<open>i < length acc\<close> show ?thesis by (simp add: nth_append)
    next
      case False
      with \<open>i < length acc\<close> have "Suc i = length acc" by simp
      with o \<open>i < length acc\<close> show ?thesis by (simp add: nth_append)
    qed
  next
    case False
    with i have "i = length acc" by simp
    with assms(2,3) show ?thesis by simp
  qed
qed

lemma walk_back_ok:
  assumes "walk bk cur acc = Some r"
  shows "r = Inr p \<Longrightarrow> back_ok bk cur acc \<Longrightarrow> acc \<noteq> [] \<Longrightarrow>
   back_ok bk None p \<and> p \<noteq> [] \<and> hd p = hd acc"
  using assms
proof (induction rule: walk_induct)
  case (step w bk cur acc r)
  show ?case
  proof (cases cur)
    case None
    with step.hyps step.prems show ?thesis by auto
  next
    case (Some s)
    show ?thesis
    proof (cases "actions bk s")
      case None
      with step.hyps Some step.prems(1) show ?thesis by auto
    next
      case a: (Some a)
      show ?thesis
      proof (cases "came_from bk s")
        case None
        with step.hyps Some a step.prems(1) show ?thesis by auto
      next
        case prev: (Some prev)
        from step.hyps Some a prev have w: "w bk prev (acc @ [(s, a)]) = Some r" by simp
        from step.prems(2) Some have "back_ok bk (Some s) acc" by simp
        from back_ok_snoc [OF this a prev] have b: "back_ok bk prev (acc @ [(s, a)])" .
        have ne: "acc @ [(s, a)] \<noteq> []" by simp
        from step.IH [OF w step.prems(1) b ne] step.prems(3) show ?thesis by simp
      qed
    qed
  qed
qed

lemma reconstruct_never_raises:
  assumes inv: "links_ok start is_goal graph_fn bk" and cur: "cur \<in> dom (cost_so_far bk)"
  shows "reconstruct bk cur \<noteq> Some (Raised e)"
proof -
  note d = links_ok_doms [OF inv]
  from cur d(2) obtain a where a: "actions bk cur = Some a" by blast
  from cur d(1) obtain prev where prev: "came_from bk cur = Some prev" by blast
  from cur obtain c where c: "cost_so_far bk cur = Some c" by blast
  show ?thesis
  proof (cases "walk bk prev [(cur, a)]")
    case None
    with a prev show ?thesis by (simp add: reconstruct_def)
  next
    case (Some r)
    have "\<forall>p. prev = Some p \<longrightarrow> p \<in> dom (cost_so_far bk)"
    proof (intro allI impI)
      fix p assume "prev = Some p"
      with prev have "came_from bk cur = Some (Some p)" by simp
      from links_ok_link [OF inv this] show "p \<in> dom (cost_so_far bk)" by simp
    qed
    from walk_returns [OF Some inv this] obtain p where "r = Inr p" ..
    with Some a prev c show ?thesis by (simp add: reconstruct_def)
  qed
qed

lemma reconstruct_links:
  assumes "reconstruct bk cur = Some (Path p)"
  obtains b where "p = rev b" and "back_ok bk None b" and "b \<noteq> []" and "fst (hd b) = cur"
proof -
  from assms obtain a prev b where a: "actions bk cur = Some a"
    and prev: "came_from bk cur = Some prev"
    and w: "walk bk prev [(cur, a)] = Some (Inr b)" and p: "p = rev b"
    by (auto simp: reconstruct_def split: option.splits sum.splits)
  from a prev have "back_ok bk prev [(cur, a)]" by (simp add: back_ok_def)
  from walk_back_ok [OF w refl this] have "back_ok bk None b" "b \<noteq> []" "hd b = (cur, a)"
    by simp_all
  with p that show thesis by simp
qed

text \<open>
  C9. At the top of the loop, after any number of iterations, every key of \<open>came_from\<close>
  and of \<open>actions\<close> and every state in the frontier is a key of \<open>cost_so_far\<close>. For the
  state \<open>cur\<close> the next \<open>heappop\<close> returns: the reconstruction of the path never raises;
  and in the expansion, after the loop body has run for any number of neighbours, the same
  holds of the bookkeeping reached, \<open>cost_so_far[cur]\<close> is there for the next neighbour,
  and each of the assignments for a neighbour, taken in the order of the source, keeps it
  so. Hence an exception out of the expansion is never that of a lookup in the tables: it
  is one the heuristic raised at a neighbour, or the \<open>OverflowError\<close> of adding the cost
  to an infinite heuristic value.
\<close>

theorem bookkeeping_keys_closed:
  assumes "bookkeeping_after graph_fn is_goal heur n (init start) = Some bk"
  shows "tables_ok bk
         \<and> (\<forall>pr cur q. heappop (queue bk) = Inr ((pr, cur), q) \<longrightarrow>
               (\<forall>e. reconstruct (bk\<lparr>queue := q\<rparr>) cur \<noteq> Some (Raised e))
               \<and> (\<forall>ts bk'. expand heur cur ts (bk\<lparr>queue := q\<rparr>) = Inr bk' \<longrightarrow>
                      tables_ok bk' \<and> cost_so_far bk' cur \<noteq> None
                      \<and> (\<forall>s nc a pr'.
                            tables_ok (bk'\<lparr>cost_so_far := (cost_so_far bk')(s \<mapsto> nc)\<rparr>)
                            \<and> tables_ok (bk'\<lparr>cost_so_far := (cost_so_far bk')(s \<mapsto> nc),
                                               actions := (actions bk')(s \<mapsto> a)\<rparr>)
                            \<and> tables_ok (bk'\<lparr>cost_so_far := (cost_so_far bk')(s \<mapsto> nc),
                                               actions := (actions bk')(s \<mapsto> a),
                                               queue := heappush (queue bk') (pr', s)\<rparr>)))
               \<and> (\<forall>ts e. expand heur cur ts (bk\<lparr>queue := q\<rparr>) = Inl e \<longrightarrow>
                      (\<exists>(a, s, c) \<in> set ts.
                          heur s = Inl e \<or> (heur s = Inr PInf \<and> e = OverflowError))))"
proof -
  from bookkeeping_after_links_ok [OF links_ok_init assms]
  have inv: "links_ok start is_goal graph_fn bk" .
  from links_ok_doms [OF inv] have ok: "tables_ok bk" by (simp add: tables_ok_def)
  have "(\<forall>e. reconstruct (bk\<lparr>queue := q\<rparr>) cur \<noteq> Some (Raised e))
               \<and> (\<forall>ts bk'. expand heur cur ts (bk\<lparr>queue := q\<rparr>) = Inr bk' \<longrightarrow>
                      tables_ok bk' \<and> cost_so_far bk' cur \<noteq> None
                      \<and> (\<forall>s nc a pr'.
                            tables_ok (bk'\<lparr>cost_so_far := (cost_so_far bk')(s \<mapsto> nc)\<rparr>)
                            \<and> tables_ok (bk'\<lparr>cost_so_far := (cost_so_far bk')(s \<mapsto> nc),
                                               actions := (actions bk')(s \<mapsto> a)\<rparr>)
                            \<and> tables_ok (bk'\<lparr>cost_so_far := (cost_so_far bk')(s \<mapsto> nc),
                                               actions := (actions bk')(s \<mapsto> a),
                                               queue := heappush (queue bk') (pr', s)\<rparr>)))
               \<and> (\<forall>ts e. expand heur cur ts (bk\<lparr>queue := q\<rparr>) = Inl e \<longrightarrow>
                      (\<exists>(a, s, c) \<in> set ts.
                          heur s = Inl e \<or> (heur s = Inr PInf \<and> e = OverflowError)))"
    if pop: "heappop (queue bk) = Inr ((pr, cur), q)" for pr cur q
  proof (intro conjI allI impI)
    note p = links_ok_popped [OF inv pop]
    from links_ok_doms [OF p(1)] have okq: "tables_ok (bk\<lparr>queue := q\<rparr>)"
      by (simp add: tables_ok_def)
    show "reconstruct (bk\<lparr>queue := q\<rparr>) cur \<noteq> Some (Raised e)" for e
      by (rule reconstruct_never_raises [OF p])
    show "\<exists>(a, s, c) \<in> set ts. heur s = Inl e \<or> (heur s = Inr PInf \<and> e = OverflowError)"
      if "expand heur cur ts (bk\<lparr>queue := q\<rparr>) = Inl e" for ts e
      by (rule expand_raises [OF p(2) that])
    fix ts bk'
    assume e: "expand heur cur ts (bk\<lparr>queue := q\<rparr>) = Inr bk'"
    from expand_tables_ok [OF okq p(2) e]
    have ok': "tables_ok bk'" and d: "cur \<in> dom (cost_so_far bk')" by simp_all
    show "tables_ok bk'" by (rule ok')
    from d show "cost_so_far bk' cur \<noteq> None" by auto
    fix s nc a pr'
    show "tables_ok (bk'\<lparr>cost_so_far := (cost_so_far bk')(s \<mapsto> nc)\<rparr>)"
      by (rule tables_ok_assignments(1) [OF ok'])
    show "tables_ok (bk'\<lparr>cost_so_far := (cost_so_far bk')(s \<mapsto> nc),
                         actions := (actions bk')(s \<mapsto> a)\<rparr>)"
      by (rule tables_ok_assignments(2) [OF ok'])
    show "tables_ok (bk'\<lparr>cost_so_far := (cost_so_far bk')(s \<mapsto> nc),
                         actions := (actions bk')(s \<mapsto> a),
                         queue := heappush (queue bk') (pr', s)\<rparr>)"
      by (rule tables_ok_assignments(3) [OF ok'])
  qed
  with ok show ?thesis by blast
qed

theorem bookkeeping_keys_closed_witness:
  "(\<exists>bk q bk'.
       bookkeeping_after (graph bench_recipes) (make_goal_checker more_planks_goal) heuristic 1
         (init bench_and_wood) = Some bk
     \<and> heappop (queue bk) = Inr ((Fin 1, bench_planks), q)
     \<and> expand heuristic bench_planks (fst (graph bench_recipes bench_planks)) (bk\<lparr>queue := q\<rparr>)
         = Inr bk'
     \<and> tables_ok bk \<and> tables_ok bk' \<and> cost_so_far bk' bench_planks \<noteq> None
     \<and> reconstruct (bk\<lparr>queue := q\<rparr>) bench_planks \<noteq> Some (Raised KeyError))
   \<and> (\<exists>q. heappop (queue (init one_wood)) = Inr ((Fin 0, one_wood), q)
        \<and> expand heuristic one_wood (fst (graph plank_recipes one_wood))
            ((init one_wood)\<lparr>queue := q\<rparr>) = Inl KeyError
        \<and> (\<exists>(a, s, c) \<in> set (fst (graph plank_recipes one_wood)).
              heuristic s = Inl KeyError \<or> (heuristic s = Inr PInf \<and> KeyError = OverflowError)))"
proof
  define after where "after = bookkeeping_after (graph bench_recipes)
      (make_goal_checker more_planks_goal) heuristic 1 (init bench_and_wood)"
  have "case after of
          None \<Rightarrow> False
        | Some bk \<Rightarrow>
            (case heappop (queue bk) of
               Inl e \<Rightarrow> False
             | Inr (e, q) \<Rightarrow>
                 e = (Fin 1, bench_planks)
                 \<and> (case expand heuristic bench_planks (fst (graph bench_recipes bench_planks))
                            (bk\<lparr>queue := q\<rparr>) of
                      Inl e \<Rightarrow> False
                    | Inr bk' \<Rightarrow> True))"
    unfolding after_def by code_simp
  then obtain bk where r': "after = Some bk"
    and h: "case heappop (queue bk) of
               Inl e \<Rightarrow> False
             | Inr (e, q) \<Rightarrow>
                 e = (Fin 1, bench_planks)
                 \<and> (case expand heuristic bench_planks (fst (graph bench_recipes bench_planks))
                            (bk\<lparr>queue := q\<rparr>) of
                      Inl e \<Rightarrow> False
                    | Inr bk' \<Rightarrow> True)"
    by (cases after) auto
  define popped where "popped = heappop (queue bk)"
  from h have "case popped of
               Inl e \<Rightarrow> False
             | Inr (e, q) \<Rightarrow>
                 e = (Fin 1, bench_planks)
                 \<and> (case expand heuristic bench_planks (fst (graph bench_recipes bench_planks))
                            (bk\<lparr>queue := q\<rparr>) of
                      Inl e \<Rightarrow> False
                    | Inr bk' \<Rightarrow> True)"
    by (simp only: popped_def)
  then obtain q where pop': "popped = Inr ((Fin 1, bench_planks), q)"
    and h': "case expand heuristic bench_planks (fst (graph bench_recipes bench_planks))
                            (bk\<lparr>queue := q\<rparr>) of
                      Inl e \<Rightarrow> False
                    | Inr bk' \<Rightarrow> True"
    by (cases popped) auto
  define expanded where "expanded = expand heuristic bench_planks
      (fst (graph bench_recipes bench_planks)) (bk\<lparr>queue := q\<rparr>)"
  from h' have "case expanded of Inl e \<Rightarrow> False | Inr bk' \<Rightarrow> True"
    by (simp only: expanded_def)
  then obtain bk' where ex': "expanded = Inr bk'" by (cases expanded) auto
  from r' have r: "bookkeeping_after (graph bench_recipes) (make_goal_checker more_planks_goal)
                heuristic 1 (init bench_and_wood) = Some bk"
    by (simp only: after_def)
  from pop' have pop: "heappop (queue bk) = Inr ((Fin 1, bench_planks), q)"
    by (simp only: popped_def)
  from ex' have ex: "expand heuristic bench_planks (fst (graph bench_recipes bench_planks))
                 (bk\<lparr>queue := q\<rparr>) = Inr bk'"
    by (simp only: expanded_def)
  note t = bookkeeping_keys_closed [OF r]
  from t have 1: "tables_ok bk" by (rule conjunct1)
  from t pop have 2: "reconstruct (bk\<lparr>queue := q\<rparr>) bench_planks \<noteq> Some (Raised KeyError)"
    by blast
  from t pop ex have 3: "tables_ok bk' \<and> cost_so_far bk' bench_planks \<noteq> None"
    by blast
  from r pop ex 1 2 3
  show "\<exists>bk q bk'.
       bookkeeping_after (graph bench_recipes) (make_goal_checker more_planks_goal) heuristic 1
         (init bench_and_wood) = Some bk
     \<and> heappop (queue bk) = Inr ((Fin 1, bench_planks), q)
     \<and> expand heuristic bench_planks (fst (graph bench_recipes bench_planks)) (bk\<lparr>queue := q\<rparr>)
         = Inr bk'
     \<and> tables_ok bk \<and> tables_ok bk' \<and> cost_so_far bk' bench_planks \<noteq> None
     \<and> reconstruct (bk\<lparr>queue := q\<rparr>) bench_planks \<noteq> Some (Raised KeyError)"
    by blast
next
  have r: "bookkeeping_after (graph plank_recipes) (make_goal_checker plank_goal) heuristic 0
             (init one_wood) = Some (init one_wood)"
    by simp
  have pop: "heappop (queue (init one_wood)) = Inr ((Fin 0, one_wood), [])"
    by (simp add: init_def heappop_single)
  have "case expand heuristic one_wood (fst (graph plank_recipes one_wood))
               ((init one_wood)\<lparr>queue := []\<rparr>) of
          Inl e \<Rightarrow> e = KeyError | Inr bk' \<Rightarrow> False"
    by code_simp
  then have ex: "expand heuristic one_wood (fst (graph plank_recipes one_wood))
                   ((init one_wood)\<lparr>queue := []\<rparr>) = Inl KeyError"
    by (auto split: sum.splits)
  from bookkeeping_keys_closed [OF r] pop ex
  have "\<exists>(a, s, c) \<in> set (fst (graph plank_recipes one_wood)).
              heuristic s = Inl KeyError \<or> (heuristic s = Inr PInf \<and> KeyError = OverflowError)"
    by blast
  with pop ex
  show "\<exists>q. heappop (queue (init one_wood)) = Inr ((Fin 0, one_wood), q)
        \<and> expand heuristic one_wood (fst (graph plank_recipes one_wood))
            ((init one_wood)\<lparr>queue := q\<rparr>) = Inl KeyError
        \<and> (\<exists>(a, s, c) \<in> set (fst (graph plank_recipes one_wood)).
              heuristic s = Inl KeyError \<or> (heuristic s = Inr PInf \<and> KeyError = OverflowError))"
    by blast
qed

section \<open>The returned path\<close>

lemma graph_yields:
  "(a, s', c) \<in> set (fst (graph rs st)) \<Longrightarrow>
   \<exists>r \<in> set rs. a = name r \<and> check r st = Inr True \<and> effect r st = Inr s'"
proof (induction rs)
  case Nil
  then show ?case by simp
next
  case (Cons r rs)
  show ?case
  proof (cases "check r st")
    case (Inl e)
    with Cons.prems show ?thesis by simp
  next
    case (Inr ok)
    show ?thesis
    proof (cases ok)
      case False
      with Inr Cons.prems have "(a, s', c) \<in> set (fst (graph rs st))" by simp
      from Cons.IH [OF this] show ?thesis by auto
    next
      case True
      show ?thesis
      proof (cases "effect r st")
        case (Inl e)
        with Inr True Cons.prems show ?thesis by simp
      next
        case eff: (Inr st1)
        with Inr True Cons.prems
        have "(a, s', c) = (name r, st1, cost r) \<or> (a, s', c) \<in> set (fst (graph rs st))"
          by (auto split: prod.splits)
        then show ?thesis
        proof
          assume "(a, s', c) = (name r, st1, cost r)"
          with Inr True eff show ?thesis by simp
        next
          assume "(a, s', c) \<in> set (fst (graph rs st))"
          from Cons.IH [OF this] show ?thesis by auto
        qed
      qed
    qed
  qed
qed

lemma links_to_path:
  assumes inv: "links_ok start is_goal graph_fn bk" and b: "back_ok bk None b" and ne: "b \<noteq> []"
  shows "rev b ! 0 = (start, None)"
    and "\<forall>i. Suc i < length (rev b) \<longrightarrow>
           is_goal (fst (rev b ! i)) = Inr False
           \<and> (\<exists>a c. snd (rev b ! Suc i) = Some a
                  \<and> (a, fst (rev b ! Suc i), c) \<in> set (fst (graph_fn (fst (rev b ! i)))))"
proof -
  from ne have n: "0 < length b" by simp
  then have l: "length b - Suc 0 < length b" by simp
  from b l have la: "actions bk (fst (b ! (length b - Suc 0))) = Some (snd (b ! (length b - Suc 0)))"
    and lc: "came_from bk (fst (b ! (length b - Suc 0))) = Some None"
    using n by (simp_all add: back_ok_def)
  from links_ok_start [OF inv lc] la
  have "fst (b ! (length b - Suc 0)) = start" "snd (b ! (length b - Suc 0)) = None" by simp_all
  then have "b ! (length b - Suc 0) = (start, None)" by (simp add: prod_eq_iff)
  with n show "rev b ! 0 = (start, None)" by (simp add: rev_nth)
  show "\<forall>i. Suc i < length (rev b) \<longrightarrow>
           is_goal (fst (rev b ! i)) = Inr False
           \<and> (\<exists>a c. snd (rev b ! Suc i) = Some a
                  \<and> (a, fst (rev b ! Suc i), c) \<in> set (fst (graph_fn (fst (rev b ! i)))))"
  proof (intro allI impI)
    fix i assume "Suc i < length (rev b)"
    then have i: "Suc i < length b" by simp
    define j where "j = length b - Suc (Suc i)"
    from i have j: "Suc j < length b" and ri: "rev b ! i = b ! Suc j"
      and rs: "rev b ! Suc i = b ! j"
      by (auto simp: j_def rev_nth Suc_diff_Suc)
    from b j have ja: "actions bk (fst (b ! j)) = Some (snd (b ! j))"
      and jc: "came_from bk (fst (b ! j)) = Some (Some (fst (b ! Suc j)))"
      by (simp_all add: back_ok_def)
    from links_ok_link [OF inv jc] obtain a c
      where g: "is_goal (fst (b ! Suc j)) = Inr False"
        and a: "actions bk (fst (b ! j)) = Some (Some a)"
        and m: "(a, fst (b ! j), c) \<in> set (fst (graph_fn (fst (b ! Suc j))))"
      by blast
    from a ja have "snd (b ! j) = Some a" by simp
    with g m ri rs
    show "is_goal (fst (rev b ! i)) = Inr False
           \<and> (\<exists>a c. snd (rev b ! Suc i) = Some a
                  \<and> (a, fst (rev b ! Suc i), c) \<in> set (fst (graph_fn (fst (rev b ! i)))))"
      by auto
  qed
qed

lemma step_returns_path:
  assumes "step graph_fn is_goal heur bk = Inl (Some (Path p))"
  obtains pr cur q where "heappop (queue bk) = Inr ((pr, cur), q)"
    and "is_goal cur = Inr True" and "reconstruct (bk\<lparr>queue := q\<rparr>) cur = Some (Path p)"
  using assms unfolding step_def
  by (auto split: sum.splits prod.splits if_splits option.splits)

lemma search_loop_path:
  assumes "search_loop graph_fn is_goal heur n bk = Some (Path p)"
    and "links_ok start is_goal graph_fn bk"
  shows "p \<noteq> [] \<and> p ! 0 = (start, None) \<and> is_goal (fst (last p)) = Inr True
         \<and> (\<forall>i. Suc i < length p \<longrightarrow>
               is_goal (fst (p ! i)) = Inr False
               \<and> (\<exists>a c. snd (p ! Suc i) = Some a
                      \<and> (a, fst (p ! Suc i), c) \<in> set (fst (graph_fn (fst (p ! i))))))"
  using assms
proof (induction n arbitrary: bk)
  case 0
  then show ?case by simp
next
  case (Suc n)
  show ?case
  proof (cases "step graph_fn is_goal heur bk")
    case (Inr bk1)
    with Suc.prems(1) have "search_loop graph_fn is_goal heur n bk1 = Some (Path p)" by simp
    from Suc.IH [OF this step_links_ok [OF Suc.prems(2) Inr]] show ?thesis .
  next
    case (Inl r)
    with Suc.prems(1) have "step graph_fn is_goal heur bk = Inl (Some (Path p))" by simp
    then obtain pr cur q where pop: "heappop (queue bk) = Inr ((pr, cur), q)"
      and g: "is_goal cur = Inr True"
      and rc: "reconstruct (bk\<lparr>queue := q\<rparr>) cur = Some (Path p)"
      by (rule step_returns_path)
    from rc obtain b where p: "p = rev b" and b: "back_ok (bk\<lparr>queue := q\<rparr>) None b"
      and ne: "b \<noteq> []" and h: "fst (hd b) = cur"
      by (rule reconstruct_links)
    note inv = links_ok_popped(1) [OF Suc.prems(2) pop]
    note lp = links_to_path [OF inv b ne]
    from ne p have "p \<noteq> []" by simp
    moreover from lp(1) p have "p ! 0 = (start, None)" by simp
    moreover from p ne h g have "is_goal (fst (last p)) = Inr True" by (simp add: last_rev)
    moreover from lp(2) p have "\<forall>i. Suc i < length p \<longrightarrow>
               is_goal (fst (p ! i)) = Inr False
               \<and> (\<exists>a c. snd (p ! Suc i) = Some a
                      \<and> (a, fst (p ! Suc i), c) \<in> set (fst (graph_fn (fst (p ! i)))))"
      by simp
    ultimately show ?thesis by (intro conjI)
  qed
qed

text \<open>
  C6. A path the search returns starts with the start state and the action \<open>None\<close>, and
  ends in a state that satisfies the goal predicate; at every step, the earlier state
  fails the goal predicate, and the action recorded with the later state is the name
  of a recipe whose check holds at the earlier state and whose effect there is the later
  state.
\<close>

theorem search_path_chronological:
  assumes "search (graph rs) start is_goal budget heur = Some (Path p)"
  shows "p \<noteq> [] \<and> p ! 0 = (start, None) \<and> is_goal (fst (last p)) = Inr True
         \<and> (\<forall>i. Suc i < length p \<longrightarrow>
               is_goal (fst (p ! i)) = Inr False
               \<and> (\<exists>r \<in> set rs. snd (p ! Suc i) = Some (name r)
                      \<and> check r (fst (p ! i)) = Inr True
                      \<and> effect r (fst (p ! i)) = Inr (fst (p ! Suc i))))"
proof -
  from assms have "search_loop (graph rs) is_goal heur budget (init start) = Some (Path p)"
    by (simp add: search_def)
  from search_loop_path [OF this links_ok_init]
  have 1: "p \<noteq> []" and 2: "p ! 0 = (start, None)" and 3: "is_goal (fst (last p)) = Inr True"
    and 4: "\<forall>i. Suc i < length p \<longrightarrow>
               is_goal (fst (p ! i)) = Inr False
               \<and> (\<exists>a c. snd (p ! Suc i) = Some a
                      \<and> (a, fst (p ! Suc i), c) \<in> set (fst (graph rs (fst (p ! i)))))"
    by simp_all
  have "\<forall>i. Suc i < length p \<longrightarrow>
               is_goal (fst (p ! i)) = Inr False
               \<and> (\<exists>r \<in> set rs. snd (p ! Suc i) = Some (name r)
                      \<and> check r (fst (p ! i)) = Inr True
                      \<and> effect r (fst (p ! i)) = Inr (fst (p ! Suc i)))"
  proof (intro allI impI)
    fix i assume "Suc i < length p"
    with 4 obtain a c where g: "is_goal (fst (p ! i)) = Inr False"
      and a: "snd (p ! Suc i) = Some a"
      and m: "(a, fst (p ! Suc i), c) \<in> set (fst (graph rs (fst (p ! i))))" by blast
    from graph_yields [OF m] a g
    show "is_goal (fst (p ! i)) = Inr False
               \<and> (\<exists>r \<in> set rs. snd (p ! Suc i) = Some (name r)
                      \<and> check r (fst (p ! i)) = Inr True
                      \<and> effect r (fst (p ! i)) = Inr (fst (p ! Suc i)))"
      by auto
  qed
  with 1 2 3 show ?thesis by (intro conjI)
qed

theorem search_path_chronological_witness:
  "search (graph bench_recipes) bench_and_wood (make_goal_checker plank_goal) 2 heuristic
     = Some (Path bench_path)
   \<and> bench_path \<noteq> [] \<and> bench_path ! 0 = (bench_and_wood, None)
   \<and> make_goal_checker plank_goal (fst (last bench_path)) = Inr True
   \<and> make_goal_checker plank_goal (fst (bench_path ! 0)) = Inr False
   \<and> (\<exists>r \<in> set bench_recipes. snd (bench_path ! Suc 0) = Some (name r)
          \<and> check r (fst (bench_path ! 0)) = Inr True
          \<and> effect r (fst (bench_path ! 0)) = Inr (fst (bench_path ! Suc 0)))"
proof -
  have run: "search (graph bench_recipes) bench_and_wood (make_goal_checker plank_goal) 2 heuristic
     = Some (Path bench_path)"
    by code_simp
  have len: "Suc 0 < length bench_path" by (simp add: bench_path_def)
  note t = search_path_chronological [OF run]
  from t have 1: "bench_path \<noteq> []" by (rule conjunct1)
  from t have 2: "bench_path ! 0 = (bench_and_wood, None)"
    by (rule conjunct2 [THEN conjunct1])
  from t have 3: "make_goal_checker plank_goal (fst (last bench_path)) = Inr True"
    by (rule conjunct2 [THEN conjunct2, THEN conjunct1])
  from t have "\<forall>i. Suc i < length bench_path \<longrightarrow>
               make_goal_checker plank_goal (fst (bench_path ! i)) = Inr False
               \<and> (\<exists>r \<in> set bench_recipes. snd (bench_path ! Suc i) = Some (name r)
                      \<and> check r (fst (bench_path ! i)) = Inr True
                      \<and> effect r (fst (bench_path ! i)) = Inr (fst (bench_path ! Suc i)))"
    by (rule conjunct2 [THEN conjunct2, THEN conjunct2])
  then have "Suc 0 < length bench_path \<longrightarrow>
               make_goal_checker plank_goal (fst (bench_path ! 0)) = Inr False
               \<and> (\<exists>r \<in> set bench_recipes. snd (bench_path ! Suc 0) = Some (name r)
                      \<and> check r (fst (bench_path ! 0)) = Inr True
                      \<and> effect r (fst (bench_path ! 0)) = Inr (fst (bench_path ! Suc 0)))"
    by (rule spec)
  from this len
  have 4: "make_goal_checker plank_goal (fst (bench_path ! 0)) = Inr False
               \<and> (\<exists>r \<in> set bench_recipes. snd (bench_path ! Suc 0) = Some (name r)
                      \<and> check r (fst (bench_path ! 0)) = Inr True
                      \<and> effect r (fst (bench_path ! 0)) = Inr (fst (bench_path ! Suc 0)))"
    by (rule mp)
  show ?thesis by (rule conjI [OF run conjI [OF 1 conjI [OF 2 conjI [OF 3 4]]]])
qed

section \<open>The graph over the store\<close>

lemma write_produces_sound:
  "write_produces h a nx ps = (h', err) \<Longrightarrow> a < length h \<Longrightarrow> nx < length h \<Longrightarrow> a \<noteq> nx \<Longrightarrow>
   length h' = length h \<and> (\<forall>i < length h. i \<noteq> nx \<longrightarrow> h' ! i = h ! i)
   \<and> (case err of
         None \<Rightarrow> apply_produces (h ! a) (h ! nx) ps = Inr (h' ! nx)
       | Some e \<Rightarrow> apply_produces (h ! a) (h ! nx) ps = Inl e)"
proof (induction ps arbitrary: h)
  case Nil
  then show ?case by simp
next
  case (Cons x ps)
  obtain k n where x: "x = (k, n)" by (cases x)
  show ?case
  proof (cases "getitem (h ! a) k")
    case (Inl e)
    with Cons.prems x show ?thesis by auto
  next
    case (Inr v)
    define h1 where "h1 = h[nx := AList.update k (v + n) (h ! nx)]"
    from Cons.prems(1) x Inr have w: "write_produces h1 a nx ps = (h', err)"
      by (simp add: h1_def)
    from Cons.prems(2,3) have l: "a < length h1" "nx < length h1" by (simp_all add: h1_def)
    from Cons.IH [OF w l Cons.prems(4)]
    have 1: "length h' = length h1" and 2: "\<forall>i < length h1. i \<noteq> nx \<longrightarrow> h' ! i = h1 ! i"
      and 3: "case err of
         None \<Rightarrow> apply_produces (h1 ! a) (h1 ! nx) ps = Inr (h' ! nx)
       | Some e \<Rightarrow> apply_produces (h1 ! a) (h1 ! nx) ps = Inl e"
      by simp_all
    from Cons.prems(3,4) have a: "h1 ! a = h ! a"
      and nx: "h1 ! nx = AList.update k (v + n) (h ! nx)" by (simp_all add: h1_def)
    from 1 have "length h' = length h" by (simp add: h1_def)
    moreover from 2 have "\<forall>i < length h. i \<noteq> nx \<longrightarrow> h' ! i = h ! i" by (simp add: h1_def)
    moreover from 3 a nx x Inr
    have "case err of
         None \<Rightarrow> apply_produces (h ! a) (h ! nx) (x # ps) = Inr (h' ! nx)
       | Some e \<Rightarrow> apply_produces (h ! a) (h ! nx) (x # ps) = Inl e"
      by (simp split: option.splits)
    ultimately show ?thesis by (intro conjI)
  qed
qed

lemma write_consumes_sound:
  "write_consumes h a nx cs = (h', err) \<Longrightarrow> a < length h \<Longrightarrow> nx < length h \<Longrightarrow> a \<noteq> nx \<Longrightarrow>
   length h' = length h \<and> (\<forall>i < length h. i \<noteq> nx \<longrightarrow> h' ! i = h ! i)
   \<and> (case err of
         None \<Rightarrow> apply_consumes (h ! a) (h ! nx) cs = Inr (h' ! nx)
       | Some e \<Rightarrow> apply_consumes (h ! a) (h ! nx) cs = Inl e)"
proof (induction cs arbitrary: h)
  case Nil
  then show ?case by simp
next
  case (Cons x cs)
  obtain k n where x: "x = (k, n)" by (cases x)
  show ?case
  proof (cases "getitem (h ! a) k")
    case (Inl e)
    with Cons.prems x show ?thesis by auto
  next
    case (Inr v)
    define h1 where "h1 = h[nx := AList.update k (v - n) (h ! nx)]"
    from Cons.prems(1) x Inr have w: "write_consumes h1 a nx cs = (h', err)"
      by (simp add: h1_def)
    from Cons.prems(2,3) have l: "a < length h1" "nx < length h1" by (simp_all add: h1_def)
    from Cons.IH [OF w l Cons.prems(4)]
    have 1: "length h' = length h1" and 2: "\<forall>i < length h1. i \<noteq> nx \<longrightarrow> h' ! i = h1 ! i"
      and 3: "case err of
         None \<Rightarrow> apply_consumes (h1 ! a) (h1 ! nx) cs = Inr (h' ! nx)
       | Some e \<Rightarrow> apply_consumes (h1 ! a) (h1 ! nx) cs = Inl e"
      by simp_all
    from Cons.prems(3,4) have a: "h1 ! a = h ! a"
      and nx: "h1 ! nx = AList.update k (v - n) (h ! nx)" by (simp_all add: h1_def)
    from 1 have "length h' = length h" by (simp add: h1_def)
    moreover from 2 have "\<forall>i < length h. i \<noteq> nx \<longrightarrow> h' ! i = h ! i" by (simp add: h1_def)
    moreover from 3 a nx x Inr
    have "case err of
         None \<Rightarrow> apply_consumes (h ! a) (h ! nx) (x # cs) = Inr (h' ! nx)
       | Some e \<Rightarrow> apply_consumes (h ! a) (h ! nx) (x # cs) = Inl e"
      by (simp split: option.splits)
    ultimately show ?thesis by (intro conjI)
  qed
qed

lemma effect_store_sound:
  assumes e: "effect_store r h a = (h', res)" and a: "a < length h"
  shows "length h' = Suc (length h) \<and> (\<forall>i < length h. h' ! i = h ! i)
         \<and> (case res of
               Inl e \<Rightarrow> make_effector r (h ! a) = Inl e
             | Inr nx \<Rightarrow> nx = length h \<and> make_effector r (h ! a) = Inr (h' ! nx))"
proof -
  define h0 where "h0 = h @ [h ! a]"
  define nx where "nx = length h"
  from a have a0: "a < length h0" and n0: "nx < length h0" and ne: "a \<noteq> nx"
    and ha: "h0 ! a = h ! a" and hn: "h0 ! nx = h ! a" and l0: "length h0 = Suc (length h)"
    and f0: "\<forall>i < length h. h0 ! i = h ! i"
    by (simp_all add: h0_def nx_def nth_append)
  obtain h1 e1 where p: "(case Produces r of None \<Rightarrow> (h0, None)
                          | Some ps \<Rightarrow> write_produces h0 a nx ps) = (h1, e1)"
    by (cases "case Produces r of None \<Rightarrow> (h0, None) | Some ps \<Rightarrow> write_produces h0 a nx ps")
  have p1: "length h1 = length h0 \<and> (\<forall>i < length h0. i \<noteq> nx \<longrightarrow> h1 ! i = h0 ! i)
     \<and> (case e1 of
           None \<Rightarrow> (case Produces r of None \<Rightarrow> Inr (h ! a)
                     | Some ps \<Rightarrow> apply_produces (h ! a) (h ! a) ps) = Inr (h1 ! nx)
         | Some e \<Rightarrow> (case Produces r of None \<Rightarrow> Inr (h ! a)
                     | Some ps \<Rightarrow> apply_produces (h ! a) (h ! a) ps) = Inl e)"
  proof (cases "Produces r")
    case None
    with p hn show ?thesis by auto
  next
    case (Some ps)
    with p have "write_produces h0 a nx ps = (h1, e1)" by simp
    from write_produces_sound [OF this a0 n0 ne] Some ha hn show ?thesis
      by (auto split: option.splits)
  qed
  then have l1: "length h1 = length h0"
    and f1: "\<forall>i < length h0. i \<noteq> nx \<longrightarrow> h1 ! i = h0 ! i"
    and r1: "case e1 of
           None \<Rightarrow> (case Produces r of None \<Rightarrow> Inr (h ! a)
                     | Some ps \<Rightarrow> apply_produces (h ! a) (h ! a) ps) = Inr (h1 ! nx)
         | Some e \<Rightarrow> (case Produces r of None \<Rightarrow> Inr (h ! a)
                     | Some ps \<Rightarrow> apply_produces (h ! a) (h ! a) ps) = Inl e"
    by simp_all
  from f0 f1 l0 have f01: "\<forall>i < length h. h1 ! i = h ! i" by (simp add: nx_def)
  have e': "(case (case Produces r of None \<Rightarrow> (h0, None)
                    | Some ps \<Rightarrow> write_produces h0 a nx ps) of
               (h1, Some e) \<Rightarrow> (h1, Inl e)
             | (h1, None) \<Rightarrow>
                 (case (case Consumes r of None \<Rightarrow> (h1, None)
                        | Some cs \<Rightarrow> write_consumes h1 a nx cs) of
                    (h2, Some e) \<Rightarrow> (h2, Inl e)
                  | (h2, None) \<Rightarrow> (h2, Inr nx))) = (h', res)"
    using e unfolding effect_store_def Let_def h0_def nx_def .
  show ?thesis
  proof (cases e1)
    case (Some e')
    with e' p have "h' = h1" "res = Inl e'"
      by simp_all
    with Some r1 l1 l0 f01 show ?thesis by (simp add: make_effector_def)
  next
    case None
    with r1 have pr: "(case Produces r of None \<Rightarrow> Inr (h ! a)
                     | Some ps \<Rightarrow> apply_produces (h ! a) (h ! a) ps) = Inr (h1 ! nx)" by simp
    from a0 l1 have a1: "a < length h1" and n1: "nx < length h1" using n0 by simp_all
    from f1 a0 ne ha have h1a: "h1 ! a = h ! a" by simp
    obtain h2 e2 where c: "(case Consumes r of None \<Rightarrow> (h1, None)
                          | Some cs \<Rightarrow> write_consumes h1 a nx cs) = (h2, e2)"
      by (cases "case Consumes r of None \<Rightarrow> (h1, None) | Some cs \<Rightarrow> write_consumes h1 a nx cs")
    have c1: "length h2 = length h1 \<and> (\<forall>i < length h1. i \<noteq> nx \<longrightarrow> h2 ! i = h1 ! i)
     \<and> (case e2 of
           None \<Rightarrow> (case Consumes r of None \<Rightarrow> Inr (h1 ! nx)
                     | Some cs \<Rightarrow> apply_consumes (h ! a) (h1 ! nx) cs) = Inr (h2 ! nx)
         | Some e \<Rightarrow> (case Consumes r of None \<Rightarrow> Inr (h1 ! nx)
                     | Some cs \<Rightarrow> apply_consumes (h ! a) (h1 ! nx) cs) = Inl e)"
    proof (cases "Consumes r")
      case None
      with c show ?thesis by auto
    next
      case (Some cs)
      with c have "write_consumes h1 a nx cs = (h2, e2)" by simp
      from write_consumes_sound [OF this a1 n1 ne] Some h1a show ?thesis
        by (auto split: option.splits)
    qed
    then have l2: "length h2 = length h1"
      and f2: "\<forall>i < length h1. i \<noteq> nx \<longrightarrow> h2 ! i = h1 ! i"
      and r2: "case e2 of
           None \<Rightarrow> (case Consumes r of None \<Rightarrow> Inr (h1 ! nx)
                     | Some cs \<Rightarrow> apply_consumes (h ! a) (h1 ! nx) cs) = Inr (h2 ! nx)
         | Some e \<Rightarrow> (case Consumes r of None \<Rightarrow> Inr (h1 ! nx)
                     | Some cs \<Rightarrow> apply_consumes (h ! a) (h1 ! nx) cs) = Inl e"
      by simp_all
    from f01 f2 l1 l0 have f02: "\<forall>i < length h. h2 ! i = h ! i" by (simp add: nx_def)
    from e' p c None have res: "h' = h2" "res = (case e2 of Some e \<Rightarrow> Inl e | None \<Rightarrow> Inr nx)"
      by (simp_all split: option.splits)
    from r2 pr have "case e2 of
           None \<Rightarrow> make_effector r (h ! a) = Inr (h2 ! nx)
         | Some e \<Rightarrow> make_effector r (h ! a) = Inl e"
      by (simp add: make_effector_def split: option.splits)
    with res l2 l1 l0 f02 show ?thesis by (simp add: nx_def split: option.splits)
  qed
qed

lemma graph_store_sound:
  "graph_store rules h a = (h', ts, err) \<Longrightarrow> a < length h \<Longrightarrow>
   length h \<le> length h' \<and> (\<forall>i < length h. h' ! i = h ! i)
   \<and> (resolve h' ts, err) = graph (map make_recipe rules) (h ! a)"
proof (induction rules arbitrary: h h' ts err)
  case Nil
  then show ?case by (simp add: resolve_def)
next
  case (Cons x rules)
  obtain n r where x: "x = (n, r)" by (cases x)
  have rec: "check (make_recipe (n, r)) = make_checker r"
    "effect (make_recipe (n, r)) = make_effector r"
    "name (make_recipe (n, r)) = n" "cost (make_recipe (n, r)) = Time r"
    by (simp_all add: make_recipe_def)
  show ?case
  proof (cases "make_checker r (h ! a)")
    case (Inl e)
    with Cons.prems(1) x rec show ?thesis by (auto simp: resolve_def)
  next
    case (Inr ok)
    show ?thesis
    proof (cases ok)
      case False
      with Inr Cons.prems(1) x have "graph_store rules h a = (h', ts, err)" by simp
      from Cons.IH [OF this Cons.prems(2)] Inr False x rec show ?thesis by simp
    next
      case True
      obtain h1 res where e: "effect_store r h a = (h1, res)" by (cases "effect_store r h a")
      from effect_store_sound [OF e Cons.prems(2)]
      have l1: "length h1 = Suc (length h)" and f1: "\<forall>i < length h. h1 ! i = h ! i"
        and r1: "case res of
               Inl e \<Rightarrow> make_effector r (h ! a) = Inl e
             | Inr nx \<Rightarrow> nx = length h \<and> make_effector r (h ! a) = Inr (h1 ! nx)"
        by simp_all
      show ?thesis
      proof (cases res)
        case (Inl e')
        with Cons.prems(1) x Inr True e have "h' = h1" "ts = []" "err = Some e'" by simp_all
        with Inl r1 l1 f1 Inr True x rec show ?thesis by (simp add: resolve_def)
      next
        case nx: (Inr nx)
        obtain h2 ts' err' where g: "graph_store rules h1 a = (h2, ts', err')"
          by (cases "graph_store rules h1 a")
        with Cons.prems(1) x Inr True e nx
        have out: "h' = h2" "ts = (n, nx, Time r) # ts'" "err = err'" by simp_all
        from Cons.prems(2) l1 have a1: "a < length h1" by simp
        from Cons.IH [OF g a1]
        have l2: "length h1 \<le> length h2" and f2: "\<forall>i < length h1. h2 ! i = h1 ! i"
          and r2: "(resolve h2 ts', err') = graph (map make_recipe rules) (h1 ! a)"
          by simp_all
        from r1 nx have nxl: "nx = length h" and eff: "make_effector r (h ! a) = Inr (h1 ! nx)"
          by simp_all
        from f1 Cons.prems(2) have "h1 ! a = h ! a" by simp
        with r2 have r2': "graph (map make_recipe rules) (h ! a) = (resolve h2 ts', err')"
          by simp
        from nxl l1 f2 have "h2 ! nx = h1 ! nx" by simp
        with eff have "make_effector r (h ! a) = Inr (h2 ! nx)" by simp
        with Inr True x rec r2' out
        have "(resolve h' ts, err) = graph (map make_recipe (x # rules)) (h ! a)"
          by (simp add: resolve_def)
        moreover from l1 l2 out have "length h \<le> length h'" by simp
        moreover from f1 f2 l1 out have "\<forall>i < length h. h' ! i = h ! i" by simp
        ultimately show ?thesis by (intro conjI)
      qed
    qed
  qed
qed

lemma apply_produces_total:
  "fst ` set ps \<subseteq> fst ` set st \<Longrightarrow> \<exists>nx'. apply_produces st nx ps = Inr nx'"
proof (induction ps arbitrary: nx)
  case Nil
  show ?case by simp
next
  case (Cons x ps)
  obtain k n where x: "x = (k, n)" by (cases x)
  from Cons.prems x have "k \<in> fst ` set st" by simp
  then have "\<exists>v. map_of st k = Some v" by (rule has_key)
  then obtain v where v: "map_of st k = Some v" ..
  from Cons.prems have "fst ` set ps \<subseteq> fst ` set st" by simp
  from Cons.IH [OF this] x v show ?case by (simp add: getitem_def)
qed

lemma apply_consumes_total:
  "fst ` set cs \<subseteq> fst ` set st \<Longrightarrow> \<exists>nx'. apply_consumes st nx cs = Inr nx'"
proof (induction cs arbitrary: nx)
  case Nil
  show ?case by simp
next
  case (Cons x cs)
  obtain k n where x: "x = (k, n)" by (cases x)
  from Cons.prems x have "k \<in> fst ` set st" by simp
  then have "\<exists>v. map_of st k = Some v" by (rule has_key)
  then obtain v where v: "map_of st k = Some v" ..
  from Cons.prems have "fst ` set cs \<subseteq> fst ` set st" by simp
  from Cons.IH [OF this] x v show ?case by (simp add: getitem_def)
qed

lemma make_effector_total:
  assumes "has_items st (rule_items r)"
  shows "\<exists>st'. make_effector r st = Inr st'"
proof -
  from assms have p: "fst ` set (clause_items (Produces r)) \<subseteq> fst ` set st"
    and c: "fst ` set (clause_items (Consumes r)) \<subseteq> fst ` set st"
    by (auto simp: has_items_def rule_items_def)
  have "\<exists>nx. (case Produces r of None \<Rightarrow> Inr st | Some ps \<Rightarrow> apply_produces st st ps) = Inr nx"
  proof (cases "Produces r")
    case None
    then show ?thesis by simp
  next
    case (Some ps)
    with p have "fst ` set ps \<subseteq> fst ` set st" by (simp add: clause_items_def)
    from apply_produces_total [OF this] Some show ?thesis by simp
  qed
  then obtain nx
    where nx: "(case Produces r of None \<Rightarrow> Inr st | Some ps \<Rightarrow> apply_produces st st ps) = Inr nx" ..
  show ?thesis
  proof (cases "Consumes r")
    case None
    with nx show ?thesis by (simp add: make_effector_def)
  next
    case (Some cs)
    with c have "fst ` set cs \<subseteq> fst ` set st" by (simp add: clause_items_def)
    from apply_consumes_total [OF this] Some nx show ?thesis by (simp add: make_effector_def)
  qed
qed

lemma make_checker_total:
  assumes "has_items st (rule_items r)"
  shows "\<exists>ok. make_checker r st = Inr ok"
proof -
  from assms have c: "fst ` set (clause_items (Consumes r)) \<subseteq> fst ` set st"
    and q: "fst ` set (clause_items (Requires r)) \<subseteq> fst ` set st"
    by (auto simp: has_items_def rule_items_def)
  have 1: "\<exists>b. (case Consumes r of None \<Rightarrow> Inr True | Some cs \<Rightarrow> check_consumes st cs) = Inr b"
  proof (cases "Consumes r")
    case None
    then show ?thesis by auto
  next
    case (Some cs)
    with c have "fst ` set cs \<subseteq> fst ` set st" by (simp add: clause_items_def)
    from check_consumes_char [OF this] Some show ?thesis by simp
  qed
  have 2: "\<exists>b. (case Requires r of None \<Rightarrow> Inr True | Some rs \<Rightarrow> check_requires st rs) = Inr b"
  proof (cases "Requires r")
    case None
    then show ?thesis by auto
  next
    case (Some rs)
    with q have "fst ` set rs \<subseteq> fst ` set st" by (simp add: clause_items_def)
    from check_requires_char [OF this] Some show ?thesis by simp
  qed
  from 1 2 show ?thesis by (auto simp: make_checker_def)
qed

lemma graph_compiled:
  "\<forall>(n, r) \<in> set rules. has_items st (rule_items r) \<Longrightarrow>
   snd (graph (map make_recipe rules) st) = None
   \<and> map (\<lambda>(n, s, c). (n, Inr s, c)) (fst (graph (map make_recipe rules) st)) =
       map (\<lambda>(n, r). (n, make_effector r st, Time r))
         (filter (\<lambda>(n, r). make_checker r st = Inr True) rules)"
proof (induction rules)
  case Nil
  show ?case by simp
next
  case (Cons x rules)
  obtain n r where x: "x = (n, r)" by (cases x)
  have rec: "check (make_recipe (n, r)) = make_checker r"
    "effect (make_recipe (n, r)) = make_effector r"
    "name (make_recipe (n, r)) = n" "cost (make_recipe (n, r)) = Time r"
    by (simp_all add: make_recipe_def)
  from Cons.prems x have hi: "has_items st (rule_items r)"
    and rest: "\<forall>(n, r) \<in> set rules. has_items st (rule_items r)" by simp_all
  note IH = Cons.IH [OF rest]
  from make_checker_total [OF hi] obtain ok where ok: "make_checker r st = Inr ok" ..
  from make_effector_total [OF hi] obtain st' where st': "make_effector r st = Inr st'" ..
  obtain ts err where g: "graph (map make_recipe rules) st = (ts, err)"
    by (cases "graph (map make_recipe rules) st")
  show ?case
  proof (cases ok)
    case True
    with ok st' g IH x rec show ?thesis by simp
  next
    case False
    with ok g IH x rec show ?thesis by simp
  qed
qed

text \<open>
  C8. Enumerating the graph at the state stored at address \<open>a\<close> leaves every object the
  store held as it was, the input state among them; the recipes are values the
  enumeration only reads. The triples it yields are those of \<open>graph\<close> on the value of
  that state, so they depend on nothing else, and enumerating again, on the store the
  first enumeration left, yields the same triples and the same end. When the state holds
  the items of every rule, nothing raises, and the triples are, in the order of the
  recipes, one for each recipe whose check holds: its name, the result of its effect,
  its cost.
\<close>

theorem graph_store_pure:
  assumes "a < length h" and "graph_store rules h a = (h', ts, err)"
  shows "take (length h) h' = h
         \<and> (resolve h' ts, err) = graph (map make_recipe rules) (h ! a)
         \<and> (\<exists>h'' ts'. graph_store rules h' a = (h'', ts', err)
                \<and> take (length h') h'' = h' \<and> resolve h'' ts' = resolve h' ts)
         \<and> ((\<forall>(n, r) \<in> set rules. has_items (h ! a) (rule_items r)) \<longrightarrow>
               err = None
               \<and> map (\<lambda>(n, s, c). (n, Inr s, c)) (resolve h' ts) =
                   map (\<lambda>(n, r). (n, make_effector r (h ! a), Time r))
                     (filter (\<lambda>(n, r). make_checker r (h ! a) = Inr True) rules))"
proof -
  from graph_store_sound [OF assms(2,1)]
  have l: "length h \<le> length h'" and f: "\<forall>i < length h. h' ! i = h ! i"
    and g: "(resolve h' ts, err) = graph (map make_recipe rules) (h ! a)"
    by simp_all
  from l f have 1: "take (length h) h' = h" by (simp add: list_eq_iff_nth_eq)
  from assms(1) l have a': "a < length h'" by simp
  from assms(1) f have same: "h' ! a = h ! a" by simp
  obtain h'' ts' err' where again: "graph_store rules h' a = (h'', ts', err')"
    by (cases "graph_store rules h' a")
  from graph_store_sound [OF again a']
  have l': "length h' \<le> length h''" and f': "\<forall>i < length h'. h'' ! i = h' ! i"
    and g': "(resolve h'' ts', err') = graph (map make_recipe rules) (h' ! a)"
    by simp_all
  from l' f' have "take (length h') h'' = h'" by (simp add: list_eq_iff_nth_eq)
  moreover from g g' same have "(resolve h'' ts', err') = (resolve h' ts, err)" by simp
  then have "resolve h'' ts' = resolve h' ts" "err' = err" by simp_all
  ultimately have 3: "\<exists>h'' ts'. graph_store rules h' a = (h'', ts', err)
                \<and> take (length h') h'' = h' \<and> resolve h'' ts' = resolve h' ts"
    using again by blast
  have 4: "(\<forall>(n, r) \<in> set rules. has_items (h ! a) (rule_items r)) \<longrightarrow>
               err = None
               \<and> map (\<lambda>(n, s, c). (n, Inr s, c)) (resolve h' ts) =
                   map (\<lambda>(n, r). (n, make_effector r (h ! a), Time r))
                     (filter (\<lambda>(n, r). make_checker r (h ! a) = Inr True) rules)"
  proof
    assume "\<forall>(n, r) \<in> set rules. has_items (h ! a) (rule_items r)"
    from graph_compiled [OF this] g [symmetric]
    show "err = None
               \<and> map (\<lambda>(n, s, c). (n, Inr s, c)) (resolve h' ts) =
                   map (\<lambda>(n, r). (n, make_effector r (h ! a), Time r))
                     (filter (\<lambda>(n, r). make_checker r (h ! a) = Inr True) rules)"
      by simp
  qed
  from 1 g 3 4 show ?thesis by (intro conjI)
qed

theorem graph_store_pure_witness:
  "(0::nat) < length one_object
   \<and> graph_store bench_rules one_object 0 = (two_objects, bench_triples, None)
   \<and> take (length one_object) two_objects = one_object
   \<and> (resolve two_objects bench_triples, None) =
       graph (map make_recipe bench_rules) (one_object ! 0)
   \<and> map (\<lambda>(n, s, c). (n, Inr s, c)) (resolve two_objects bench_triples) =
       map (\<lambda>(n, r). (n, make_effector r (one_object ! 0), Time r))
         (filter (\<lambda>(n, r). make_checker r (one_object ! 0) = Inr True) bench_rules)"
proof -
  have lt: "(0::nat) < length one_object" by (simp add: one_object_def)
  have run: "graph_store bench_rules one_object 0 = (two_objects, bench_triples, None)"
    by code_simp
  have items: "\<forall>(n, r) \<in> set bench_rules. has_items (one_object ! 0) (rule_items r)"
    by code_simp
  note t = graph_store_pure [OF lt run]
  from t have 1: "take (length one_object) two_objects = one_object" by (rule conjunct1)
  from t have 2: "(resolve two_objects bench_triples, None) =
       graph (map make_recipe bench_rules) (one_object ! 0)"
    by (rule conjunct2 [THEN conjunct1])
  from t have "(\<forall>(n, r) \<in> set bench_rules. has_items (one_object ! 0) (rule_items r)) \<longrightarrow>
               None = (None :: error option)
               \<and> map (\<lambda>(n, s, c). (n, Inr s, c)) (resolve two_objects bench_triples) =
                   map (\<lambda>(n, r). (n, make_effector r (one_object ! 0), Time r))
                     (filter (\<lambda>(n, r). make_checker r (one_object ! 0) = Inr True) bench_rules)"
    by (rule conjunct2 [THEN conjunct2, THEN conjunct2])
  from this items
  have "None = (None :: error option)
               \<and> map (\<lambda>(n, s, c). (n, Inr s, c)) (resolve two_objects bench_triples) =
                   map (\<lambda>(n, r). (n, make_effector r (one_object ! 0), Time r))
                     (filter (\<lambda>(n, r). make_checker r (one_object ! 0) = Inr True) bench_rules)"
    by (rule mp)
  then have 3: "map (\<lambda>(n, s, c). (n, Inr s, c)) (resolve two_objects bench_triples) =
                   map (\<lambda>(n, r). (n, make_effector r (one_object ! 0), Time r))
                     (filter (\<lambda>(n, r). make_checker r (one_object ! 0) = Inr True) bench_rules)"
    by (rule conjunct2)
  show ?thesis by (rule conjI [OF lt conjI [OF run conjI [OF 1 conjI [OF 2 3]]]])
qed

end
